theory Spec2Isabelle
  imports Complex_Main "HOL-Library.Word"
begin

unbundle bit_operations_syntax

section \<open>The mesh writer of the USD exporter (usd_writer_mesh.cc)\<close>

text \<open>
  The development follows \<^verbatim>\<open>source/blender/usd/intern/usd_writer_mesh.cc\<close>:
  first the source mesh and the intermediate \<^verbatim>\<open>USDMeshData\<close>, then the three
  extraction loops, then the calls the writer makes on the USD stage, on the material
  collaborators and on \<^verbatim>\<open>free_export_mesh\<close>, kept as a log of calls.
\<close>

subsection \<open>Source mesh (DNA structs, only the fields the writer reads)\<close>

text \<open>
  C \<^verbatim>\<open>int\<close> and \<^verbatim>\<open>short\<close> fields are \<open>int\<close>: the writer compares them, counts
  up to them and offsets a pointer by them, so that none of its integer operations on
  them overflows. \<^verbatim>\<open>unsigned int\<close> vertex references are
  \<open>32 word\<close>; the crease weight is one byte, read as 0..255 (the data model of the
  specification). A vertex coordinate is a \<^verbatim>\<open>float[3]\<close> that is only copied, so the
  type of one float is a parameter \<open>'f\<close>.
\<close>

record 'f MVert =
  co :: "'f \<times> 'f \<times> 'f"

record MEdge =
  v1 :: "32 word"
  v2 :: "32 word"
  crease :: "8 word"

record MPoly =
  loopstart :: int
  totloop :: int
  mat_nr :: int

record MLoop =
  loop_v :: "32 word"

text \<open>
  The arrays are lists; \<open>totvert\<close>, \<open>totedge\<close>, \<open>totpoly\<close>, \<open>mesh_totloop\<close> (the field
  \<^verbatim>\<open>Mesh.totloop\<close>, renamed because \<^verbatim>\<open>MPoly\<close> has a field of that name) are the
  counts stored beside them.
\<close>

record 'f Mesh =
  totvert :: int
  totedge :: int
  totpoly :: int
  mesh_totloop :: int
  totcol :: int
  mvert :: "'f MVert list"
  medge :: "MEdge list"
  mpoly :: "MPoly list"
  mloop :: "MLoop list"

subsection \<open>Floats of the crease computation\<close>

text \<open>
  A finite binary32 value is represented by the rational it denotes. \<open>round_to_float\<close>
  is round-to-nearest, ties-to-even, on a 24-bit significand with the smallest exponent
  \<open>-126\<close> (below it the spacing stays \<open>2 powi -149\<close>, the subnormals). Overflow to
  infinity is not represented: the arguments in this file are at most 255.
\<close>

definition pow2 :: "int \<Rightarrow> rat" where
  "pow2 e = (if 0 \<le> e then 2 ^ nat e else 1 / 2 ^ nat (- e))"

text \<open>The number of binary digits of a positive integer.\<close>

function bit_length :: "int \<Rightarrow> int" where
  "bit_length n = (if n \<le> 0 then 0 else bit_length (n div 2) + 1)"
  by pat_completeness auto
termination
  by (relation "measure nat") auto

declare bit_length.simps [simp del]

text \<open>
  For \<open>a = p / q > 0\<close> the exponent \<open>e\<close> with \<open>2 powi e \<le> a < 2 powi (e + 1)\<close>
  is the difference of the bit lengths of \<open>p\<close> and \<open>q\<close>, or one less.
\<close>

definition floor_log2 :: "rat \<Rightarrow> int" where
  "floor_log2 a =
     (let (p, q) = quotient_of a;
          d = bit_length p - bit_length q
      in if pow2 d \<le> a then d else d - 1)"

definition round_half_even :: "rat \<Rightarrow> int" where
  "round_half_even y =
     (let f = \<lfloor>y\<rfloor>; r = y - of_int f
      in if r < 1 / 2 then f
         else if 1 / 2 < r then f + 1
         else if even f then f else f + 1)"

definition round_to_float :: "rat \<Rightarrow> rat" where
  "round_to_float x =
     (if x = 0 then 0
      else let a = \<bar>x\<bar>;
               e = max (floor_log2 a) (- 126);
               u = pow2 (e - 23)
           in sgn x * of_int (round_half_even (a / u)) * u)"

definition fdiv :: "rat \<Rightarrow> rat \<Rightarrow> rat" where
  "fdiv a b = round_to_float (a / b)"

definition fmul :: "rat \<Rightarrow> rat \<Rightarrow> rat" where
  "fmul a b = round_to_float (a * b)"

text \<open>\<^verbatim>\<open>static_cast<float>(edge->crease)\<close>: an integer 0..255 is a float exactly.\<close>

definition float_of_uchar :: "8 word \<Rightarrow> rat" where
  "float_of_uchar c = round_to_float (of_nat (unat c))"

subsection \<open>USDMeshData\<close>

text \<open>
  \<^verbatim>\<open>VtIntArray\<close> holds C \<^verbatim>\<open>int\<close>s. \<^verbatim>\<open>std::map<short, VtIntArray>\<close> is an
  association list kept in increasing key order, which is the order a range-for visits.
\<close>

type_synonym face_groups_t = "(int \<times> int list) list"

record 'f USDMeshData =
  points :: "('f \<times> 'f \<times> 'f) list"
  face_vertex_counts :: "int list"
  face_indices :: "int list"
  face_groups :: face_groups_t
  crease_lengths :: "int list"
  crease_vertex_indices :: "int list"
  crease_sharpnesses :: "rat list"

definition empty_mesh_data :: "'f USDMeshData" where
  "empty_mesh_data =
     \<lparr>points = [], face_vertex_counts = [], face_indices = [], face_groups = [],
      crease_lengths = [], crease_vertex_indices = [], crease_sharpnesses = []\<rparr>"

text \<open>\<^verbatim>\<open>face_groups[k].push_back(i)\<close>: \<^verbatim>\<open>operator[]\<close> inserts an empty array at a new key.\<close>

fun map_push_back :: "int \<Rightarrow> int \<Rightarrow> face_groups_t \<Rightarrow> face_groups_t" where
  "map_push_back k i [] = [(k, [i])]"
| "map_push_back k i ((k', xs) # rest) =
     (if k = k' then (k', xs @ [i]) # rest
      else if k < k' then (k, [i]) # (k', xs) # rest
      else (k', xs) # map_push_back k i rest)"

subsection \<open>Reading a C array, and the counting loop\<close>

text \<open>
  A read outside the array is undefined behaviour in C: it is \<open>None\<close> here, and \<open>None\<close>
  from a loop body ends the loop with \<open>None\<close>.
\<close>

definition array_read :: "'a list \<Rightarrow> int \<Rightarrow> 'a option" where
  "array_read xs i = (if 0 \<le> i \<and> i < int (length xs) then Some (xs ! nat i) else None)"

text \<open>\<^verbatim>\<open>for (int i = i0; i < n; ++i) body\<close>; \<open>i + 1\<close> cannot overflow since \<open>i < n\<close>.\<close>

function for_loop :: "int \<Rightarrow> int \<Rightarrow> (int \<Rightarrow> 's \<Rightarrow> 's option) \<Rightarrow> 's \<Rightarrow> 's option" where
  "for_loop i n body s =
     (if i < n then
        (case body i s of
           None \<Rightarrow> None
         | Some s' \<Rightarrow> for_loop (i + 1) n body s')
      else Some s)"
  by pat_completeness auto
termination
  by (relation "measure (\<lambda>(i, n, body, s). nat (n - i))") auto

declare for_loop.simps [simp del]

subsection \<open>get_vertices, get_loops_polys, get_creases, get_geometry_data\<close>

text \<open>
  \<^verbatim>\<open>unsigned int\<close> pushed into a \<^verbatim>\<open>VtIntArray\<close> is converted to \<^verbatim>\<open>int\<close>: the same
  32 bits read as two's complement.
\<close>

definition int_of_uint :: "32 word \<Rightarrow> int" where
  "int_of_uint w = sint w"

definition get_vertices :: "'f Mesh \<Rightarrow> 'f USDMeshData \<Rightarrow> 'f USDMeshData option" where
  "get_vertices mesh usd_mesh_data =
     for_loop 0 (totvert mesh)
       (\<lambda>i d. case array_read (mvert mesh) i of
                 None \<Rightarrow> None
               | Some vert \<Rightarrow> Some (d\<lparr>points := points d @ [co vert]\<rparr>))
       usd_mesh_data"

definition get_loops_polys :: "'f Mesh \<Rightarrow> 'f USDMeshData \<Rightarrow> 'f USDMeshData option" where
  "get_loops_polys mesh usd_mesh_data =
     (let construct_face_groups = (1 < totcol mesh) in
      for_loop 0 (totpoly mesh)
        (\<lambda>i d. case array_read (mpoly mesh) i of
                  None \<Rightarrow> None
                | Some poly \<Rightarrow>
                    (case for_loop 0 (totloop poly)
                            (\<lambda>j d'. case array_read (mloop mesh) (loopstart poly + j) of
                                       None \<Rightarrow> None
                                     | Some loop \<Rightarrow>
                                         Some (d'\<lparr>face_indices :=
                                                     face_indices d' @ [int_of_uint (loop_v loop)]\<rparr>))
                            (d\<lparr>face_vertex_counts := face_vertex_counts d @ [totloop poly]\<rparr>) of
                       None \<Rightarrow> None
                     | Some d'' \<Rightarrow>
                         Some (if construct_face_groups
                               then d''\<lparr>face_groups := map_push_back (mat_nr poly) i (face_groups d'')\<rparr>
                               else d'')))
        usd_mesh_data)"

text \<open>
  \<open>sharpness_infinite\<close> stands for \<^verbatim>\<open>pxr::UsdGeomMesh::SHARPNESS_INFINITE\<close>, a constant of
  the USD library.
\<close>

definition crease_sharpness :: "rat \<Rightarrow> 8 word \<Rightarrow> rat" where
  "crease_sharpness sharpness_infinite c =
     (let factor = fdiv 1 255 in
      if c = 255 then sharpness_infinite
      else fmul (float_of_uchar c) factor)"

definition get_creases :: "rat \<Rightarrow> 'f Mesh \<Rightarrow> 'f USDMeshData \<Rightarrow> 'f USDMeshData option" where
  "get_creases sharpness_infinite mesh usd_mesh_data =
     for_loop 0 (totedge mesh)
       (\<lambda>edge_idx d. case array_read (medge mesh) edge_idx of
                 None \<Rightarrow> None
               | Some edge \<Rightarrow>
                   if crease edge = 0 then Some d
                   else Some (d\<lparr>crease_vertex_indices :=
                                   crease_vertex_indices d @ [int_of_uint (v1 edge), int_of_uint (v2 edge)],
                                 crease_lengths := crease_lengths d @ [2],
                                 crease_sharpnesses :=
                                   crease_sharpnesses d @ [crease_sharpness sharpness_infinite (crease edge)]\<rparr>))
       usd_mesh_data"

definition get_geometry_data :: "rat \<Rightarrow> 'f Mesh \<Rightarrow> 'f USDMeshData \<Rightarrow> 'f USDMeshData option" where
  "get_geometry_data sharpness_infinite mesh usd_mesh_data =
     (case get_vertices mesh usd_mesh_data of
        None \<Rightarrow> None
      | Some d1 \<Rightarrow>
          (case get_loops_polys mesh d1 of
             None \<Rightarrow> None
           | Some d2 \<Rightarrow> get_creases sharpness_infinite mesh d2))"

text \<open>
  A mesh whose arrays have the lengths its counts say and whose polygons lie inside the
  loop array: on such a mesh no read is out of range.
\<close>

definition mesh_ok :: "'f Mesh \<Rightarrow> bool" where
  "mesh_ok mesh \<longleftrightarrow>
     int (length (mvert mesh)) = totvert mesh \<and>
     int (length (medge mesh)) = totedge mesh \<and>
     int (length (mpoly mesh)) = totpoly mesh \<and>
     int (length (mloop mesh)) = mesh_totloop mesh \<and>
     list_all (\<lambda>p. 0 \<le> loopstart p \<and> 0 \<le> totloop p \<and>
                    loopstart p + totloop p \<le> mesh_totloop mesh) (mpoly mesh)"

text \<open>Notions used to state what the extraction produces.\<close>

definition poly_loops :: "'f Mesh \<Rightarrow> MPoly \<Rightarrow> MLoop list" where
  "poly_loops mesh p = take (nat (totloop p)) (drop (nat (loopstart p)) (mloop mesh))"

definition creased_edges :: "'f Mesh \<Rightarrow> MEdge list" where
  "creased_edges mesh = filter (\<lambda>e. crease e \<noteq> 0) (medge mesh)"

definition grouped_faces :: "'f Mesh \<Rightarrow> face_groups_t" where
  "grouped_faces mesh =
     fold (\<lambda>k. map_push_back (mat_nr (mpoly mesh ! nat k)) k) [0..totpoly mesh - 1] []"

subsection \<open>Objects, materials and the calls a writer makes\<close>

record Material =
  mat_name :: string
  blend_flag :: "8 word"

record 'f Object =
  id_name :: string
  ob_type :: int
  ob_totcol :: int
  mesh_eval :: "'f Mesh option"

record 'f HierarchyContext =
  object :: "'f Object"

text \<open>
  A \<^verbatim>\<open>pxr::UsdShadeMaterial\<close> is known here by the name token of its path, which is all
  the writer reads from it. A \<^verbatim>\<open>pxr::UsdTimeCode\<close> is only passed on.
\<close>

record UsdShadeMaterial =
  name_token :: string

type_synonym UsdTimeCode = rat

text \<open>
  Every call that leaves this file is one constructor: the calls on the USD mesh and on the
  material binding API (a \<^verbatim>\<open>Create...Attr().Set(value, timecode)\<close> statement is one call),
  \<^verbatim>\<open>ensure_usd_material\<close>, \<^verbatim>\<open>free_export_mesh\<close> and the \<^verbatim>\<open>printf\<close> of a skipped
  object. The last constructor stands for the allocations of the arrays that
  \<^verbatim>\<open>get_geometry_data\<close> fills (\<^verbatim>\<open>reserve\<close>, \<^verbatim>\<open>push_back\<close>), which throw when memory is
  exhausted: it is asked whether it throws and is not logged.
\<close>

datatype 'f call =
    UsdGeomMesh_Define
  | Points_Set "('f \<times> 'f \<times> 'f) list" UsdTimeCode
  | FaceVertexCounts_Set "int list" UsdTimeCode
  | FaceVertexIndices_Set "int list" UsdTimeCode
  | CreaseLengths_Set "int list" UsdTimeCode
  | CreaseIndices_Set "int list" UsdTimeCode
  | CreaseSharpnesses_Set "rat list" UsdTimeCode
  | Ensure_Usd_Material Material
  | Bind_To_Mesh UsdShadeMaterial
  | DoubleSided_Create bool
  | MaterialBindSubset_Create string "int list"
  | Bind_To_Subset UsdShadeMaterial string
  | Free_Export_Mesh "'f Mesh"
  | Printf_Skipping string int
  | Array_Allocation

text \<open>
  A C++ exception is a value; \<open>Undefined\<close> is the outcome of an out-of-range read, which no
  \<^verbatim>\<open>catch\<close> sees.
\<close>

type_synonym exn = string

datatype 'a outcome = Returned 'a | Thrown exn | Undefined

text \<open>
  An action maps the log of the calls made so far to its outcome and the new log.
\<close>

type_synonym ('f, 'a) action = "'f call list \<Rightarrow> 'a outcome \<times> 'f call list"

definition ret :: "'a \<Rightarrow> ('f, 'a) action" where
  "ret x tr = (Returned x, tr)"

definition then_do :: "('f, 'a) action \<Rightarrow> ('a \<Rightarrow> ('f, 'b) action) \<Rightarrow> ('f, 'b) action" where
  "then_do a f tr =
     (case a tr of
        (Returned x, tr') \<Rightarrow> f x tr'
      | (Thrown e, tr') \<Rightarrow> (Thrown e, tr')
      | (Undefined, tr') \<Rightarrow> (Undefined, tr'))"

definition throw :: "exn \<Rightarrow> ('f, 'a) action" where
  "throw e tr = (Thrown e, tr)"

definition undefined_behaviour :: "('f, 'a) action" where
  "undefined_behaviour tr = (Undefined, tr)"

text \<open>\<^verbatim>\<open>try { body } catch (...) { handler; throw; }\<close>\<close>

definition try_catch_rethrow :: "('f, 'a) action \<Rightarrow> ('f, unit) action \<Rightarrow> ('f, 'a) action" where
  "try_catch_rethrow body handler tr =
     (case body tr of
        (Thrown e, tr') \<Rightarrow> then_do handler (\<lambda>_. throw e) tr'
      | r \<Rightarrow> r)"

text \<open>
  The writer: its member \<^verbatim>\<open>frame_has_been_written_\<close> (without the last underscore,
  which a name cannot have here), the methods and functions it calls
  that are outside this file, and two constants of other headers. \<open>raises\<close> says, for the
  log so far and the next call, whether that call throws and what; it is arbitrary, so
  that every way the collaborators can fail is the \<open>raises\<close> of some writer. \<^verbatim>\<open>get_export_mesh\<close> is virtual: it gets
  the object and the current value of \<^verbatim>\<open>needsfree\<close> and returns the mesh (or \<^verbatim>\<open>NULL\<close>) and
  the value it leaves in \<^verbatim>\<open>needsfree\<close>.
\<close>

record 'f writer =
  frame_has_been_written :: bool
  get_export_time_code :: UsdTimeCode
  get_export_mesh :: "'f Object \<Rightarrow> bool \<Rightarrow> 'f Mesh option \<times> bool"
  give_current_material :: "'f Object \<Rightarrow> int \<Rightarrow> Material option"
  ensure_usd_material :: "Material \<Rightarrow> UsdShadeMaterial"
  raises :: "'f call list \<Rightarrow> 'f call \<Rightarrow> exn option"
  SHARPNESS_INFINITE :: rat
  MA_BL_CULL_BACKFACE :: "8 word"

text \<open>A call is logged when it is made, whether it returns or throws.\<close>

definition invoke :: "'f writer \<Rightarrow> 'f call \<Rightarrow> ('f, unit) action" where
  "invoke w c tr =
     (case raises w tr c of
        Some e \<Rightarrow> (Thrown e, tr @ [c])
      | None \<Rightarrow> (Returned (), tr @ [c]))"

text \<open>What can throw without being a call of the log.\<close>

definition may_throw :: "'f writer \<Rightarrow> 'f call \<Rightarrow> ('f, unit) action" where
  "may_throw w c tr =
     (case raises w tr c of
        Some e \<Rightarrow> (Thrown e, tr)
      | None \<Rightarrow> (Returned (), tr))"

text \<open>
  \<^verbatim>\<open>free_export_mesh\<close> calls \<^verbatim>\<open>BKE_id_free\<close>, a C function: it does not throw. Neither
  does \<^verbatim>\<open>printf\<close>.
\<close>

definition free_export_mesh :: "'f Mesh \<Rightarrow> ('f, unit) action" where
  "free_export_mesh mesh tr = (Returned (), tr @ [Free_Export_Mesh mesh])"

definition printf_skipping :: "'f Object \<Rightarrow> ('f, unit) action" where
  "printf_skipping object_eval tr =
     (Returned (), tr @ [Printf_Skipping (id_name object_eval) (ob_type object_eval)])"

text \<open>A \<^verbatim>\<open>short\<close> argument made from an \<^verbatim>\<open>int\<close> expression.\<close>

definition short_of_int :: "int \<Rightarrow> int" where
  "short_of_int x = (x + 32768) mod 65536 - 32768"

subsection \<open>assign_materials\<close>

text \<open>
  The first loop, from \<open>mat_num\<close> on; its value is \<^verbatim>\<open>mesh_material_bound\<close>. The counter
  is a \<^verbatim>\<open>short\<close> in the source and an \<open>int\<close> here: the two agree as long as the
  object has at most 32767 slots, which the results below assume.
\<close>

function bind_first_material :: "'f writer \<Rightarrow> 'f Object \<Rightarrow> int \<Rightarrow> ('f, bool) action" where
  "bind_first_material w ob mat_num =
     (if mat_num < ob_totcol ob then
        (case give_current_material w ob (short_of_int (mat_num + 1)) of
           None \<Rightarrow> bind_first_material w ob (mat_num + 1)
         | Some material \<Rightarrow>
             then_do (invoke w (Ensure_Usd_Material material)) (\<lambda>_.
             let usd_material = ensure_usd_material w material in
             then_do (invoke w (Bind_To_Mesh usd_material)) (\<lambda>_.
             then_do (invoke w (DoubleSided_Create
                        ((blend_flag material AND MA_BL_CULL_BACKFACE w) = 0))) (\<lambda>_.
             ret True))))
      else ret False)"
  by pat_completeness auto
termination
  by (relation "measure (\<lambda>(w, ob, mat_num). nat (ob_totcol ob - mat_num))") auto

declare bind_first_material.simps [simp del]

text \<open>The second loop, over the face groups in key order.\<close>

fun define_subsets :: "'f writer \<Rightarrow> 'f Object \<Rightarrow> face_groups_t \<Rightarrow> ('f, unit) action" where
  "define_subsets w ob [] = ret ()"
| "define_subsets w ob ((material_number, face_indices') # rest) =
     (case give_current_material w ob (short_of_int (material_number + 1)) of
        None \<Rightarrow> define_subsets w ob rest
      | Some material \<Rightarrow>
          then_do (invoke w (Ensure_Usd_Material material)) (\<lambda>_.
          let usd_material = ensure_usd_material w material;
              material_name = name_token usd_material in
          then_do (invoke w (MaterialBindSubset_Create material_name face_indices')) (\<lambda>_.
          then_do (invoke w (Bind_To_Subset usd_material material_name)) (\<lambda>_.
          define_subsets w ob rest))))"

definition assign_materials ::
    "'f writer \<Rightarrow> 'f HierarchyContext \<Rightarrow> face_groups_t \<Rightarrow> ('f, unit) action" where
  "assign_materials w context usd_face_groups =
     (if ob_totcol (object context) = 0 then ret ()
      else
        then_do (bind_first_material w (object context) 0) (\<lambda>mesh_material_bound.
        then_do (if \<not> mesh_material_bound then invoke w (DoubleSided_Create True) else ret ()) (\<lambda>_.
        if \<not> mesh_material_bound \<or> length usd_face_groups < 2 then ret ()
        else define_subsets w (object context) usd_face_groups)))"

subsection \<open>write_mesh, do_write, USDMeshWriter::get_export_mesh\<close>

definition write_mesh :: "'f writer \<Rightarrow> 'f HierarchyContext \<Rightarrow> 'f Mesh \<Rightarrow> ('f, unit) action" where
  "write_mesh w context mesh =
     (let timecode = get_export_time_code w in
      then_do (invoke w UsdGeomMesh_Define) (\<lambda>_.
      then_do (may_throw w Array_Allocation) (\<lambda>_.
      case get_geometry_data (SHARPNESS_INFINITE w) mesh empty_mesh_data of
        None \<Rightarrow> undefined_behaviour
      | Some usd_mesh_data \<Rightarrow>
          then_do (invoke w (Points_Set (points usd_mesh_data) timecode)) (\<lambda>_.
          then_do (invoke w (FaceVertexCounts_Set (face_vertex_counts usd_mesh_data) timecode)) (\<lambda>_.
          then_do (invoke w (FaceVertexIndices_Set (face_indices usd_mesh_data) timecode)) (\<lambda>_.
          then_do (if crease_lengths usd_mesh_data \<noteq> [] then
                     then_do (invoke w (CreaseLengths_Set (crease_lengths usd_mesh_data) timecode)) (\<lambda>_.
                     then_do (invoke w (CreaseIndices_Set (crease_vertex_indices usd_mesh_data) timecode)) (\<lambda>_.
                     invoke w (CreaseSharpnesses_Set (crease_sharpnesses usd_mesh_data) timecode)))
                   else ret ()) (\<lambda>_.
          if frame_has_been_written w then ret ()
          else assign_materials w context (face_groups usd_mesh_data))))))))"

definition do_write :: "'f writer \<Rightarrow> 'f HierarchyContext \<Rightarrow> ('f, unit) action" where
  "do_write w context =
     (let object_eval = object context;
          (mesh, needsfree) = get_export_mesh w object_eval False in
      case mesh of
        None \<Rightarrow> printf_skipping object_eval
      | Some mesh \<Rightarrow>
          try_catch_rethrow
            (then_do (write_mesh w context mesh) (\<lambda>_.
             if needsfree then free_export_mesh mesh else ret ()))
            (if needsfree then free_export_mesh mesh else ret ()))"

definition USDMeshWriter_get_export_mesh :: "'f Object \<Rightarrow> bool \<Rightarrow> 'f Mesh option \<times> bool" where
  "USDMeshWriter_get_export_mesh object_eval r_needsfree = (mesh_eval object_eval, r_needsfree)"

subsection \<open>Example inputs\<close>

text \<open>
  Two triangles on four vertices, the first on material slot 1 and the second on slot 0;
  three edges with crease weights 0, 255 and 128; two material slots.
\<close>

definition two_triangles :: "rat Mesh" where
  "two_triangles =
     \<lparr>totvert = 4, totedge = 3, totpoly = 2, mesh_totloop = 6, totcol = 2,
      mvert = [\<lparr>co = (0, 0, 0)\<rparr>, \<lparr>co = (1, 0, 0)\<rparr>, \<lparr>co = (1, 1, 0)\<rparr>, \<lparr>co = (0, 1, 0)\<rparr>],
      medge = [\<lparr>v1 = 0, v2 = 1, crease = 0\<rparr>, \<lparr>v1 = 1, v2 = 2, crease = 255\<rparr>,
               \<lparr>v1 = 0, v2 = 2, crease = 128\<rparr>],
      mpoly = [\<lparr>loopstart = 0, totloop = 3, mat_nr = 1\<rparr>, \<lparr>loopstart = 3, totloop = 3, mat_nr = 0\<rparr>],
      mloop = [\<lparr>loop_v = 0\<rparr>, \<lparr>loop_v = 1\<rparr>, \<lparr>loop_v = 2\<rparr>,
               \<lparr>loop_v = 0\<rparr>, \<lparr>loop_v = 2\<rparr>, \<lparr>loop_v = 3\<rparr>]\<rparr>"

text \<open>The same mesh with a single material slot.\<close>

definition two_triangles_one_slot :: "rat Mesh" where
  "two_triangles_one_slot = two_triangles\<lparr>totcol := 1\<rparr>"

subsection \<open>Reading a log of calls\<close>

text \<open>
  What a list of calls did: the meshes freed, the materials bound to the whole mesh, the
  values given to the double-sided attribute, and the calls that create a geometry subset or
  bind a material to one.
\<close>

definition freed :: "'f call list \<Rightarrow> 'f Mesh list" where
  "freed cs = concat (map (\<lambda>c. case c of Free_Export_Mesh m \<Rightarrow> [m] | _ \<Rightarrow> []) cs)"

definition mesh_bindings :: "'f call list \<Rightarrow> UsdShadeMaterial list" where
  "mesh_bindings cs = concat (map (\<lambda>c. case c of Bind_To_Mesh u \<Rightarrow> [u] | _ \<Rightarrow> []) cs)"

definition double_sided_flags :: "'f call list \<Rightarrow> bool list" where
  "double_sided_flags cs = concat (map (\<lambda>c. case c of DoubleSided_Create b \<Rightarrow> [b] | _ \<Rightarrow> []) cs)"

definition subset_calls :: "'f call list \<Rightarrow> 'f call list" where
  "subset_calls cs =
     filter (\<lambda>c. case c of MaterialBindSubset_Create n idx \<Rightarrow> True
                  | Bind_To_Subset u n \<Rightarrow> True | _ \<Rightarrow> False) cs"

text \<open>
  The calls of an action, from any log, all satisfy \<open>P\<close>, and the action has no undefined
  behaviour.
\<close>

definition runs :: "('f call \<Rightarrow> bool) \<Rightarrow> ('f, 'a) action \<Rightarrow> bool" where
  "runs P a \<longleftrightarrow> (\<forall>tr. fst (a tr) \<noteq> Undefined \<and> (\<exists>cs. snd (a tr) = tr @ cs \<and> list_all P cs))"

subsection \<open>Example writers\<close>

definition red :: Material where
  "red = \<lparr>mat_name = ''Red'', blend_flag = 0\<rparr>"

definition glass :: Material where
  "glass = \<lparr>mat_name = ''Glass'', blend_flag = 4\<rparr>"

text \<open>An object with three material slots: \<open>red\<close> in the first, the other two empty.\<close>

definition three_slots :: "rat HierarchyContext" where
  "three_slots =
     \<lparr>object = \<lparr>id_name = ''OBCube'', ob_type = 1, ob_totcol = 3, mesh_eval = Some two_triangles\<rparr>\<rparr>"

text \<open>An object with two material slots: the first empty, \<open>glass\<close> in the second.\<close>

definition two_slots :: "rat HierarchyContext" where
  "two_slots =
     \<lparr>object = \<lparr>id_name = ''OBPlane'', ob_type = 1, ob_totcol = 2, mesh_eval = Some two_triangles\<rparr>\<rparr>"

text \<open>An object without material slots.\<close>

definition no_slots :: "rat HierarchyContext" where
  "no_slots =
     \<lparr>object = \<lparr>id_name = ''OBEmpty'', ob_type = 1, ob_totcol = 0, mesh_eval = Some two_triangles\<rparr>\<rparr>"

text \<open>
  A writer whose collaborators never throw, at its first time sample. The material of a slot
  is found by the object's name; the mesh it exports is a temporary copy.
\<close>

definition first_sample_writer :: "rat writer" where
  "first_sample_writer =
     \<lparr>frame_has_been_written = False,
      get_export_time_code = 1,
      get_export_mesh = (\<lambda>ob needsfree. (mesh_eval ob, True)),
      give_current_material =
        (\<lambda>ob act. if id_name ob = ''OBCube'' \<and> act = 1 then Some red
                   else if id_name ob = ''OBPlane'' \<and> act = 2 then Some glass
                   else None),
      ensure_usd_material = (\<lambda>material. \<lparr>name_token = mat_name material\<rparr>),
      raises = (\<lambda>tr c. None),
      SHARPNESS_INFINITE = 10,
      MA_BL_CULL_BACKFACE = 4\<rparr>"

text \<open>The same writer at a later time sample.\<close>

definition later_sample_writer :: "rat writer" where
  "later_sample_writer = first_sample_writer\<lparr>frame_has_been_written := True\<rparr>"

text \<open>The same writer with a stage that throws when the face vertex counts are set.\<close>

definition failing_writer :: "rat writer" where
  "failing_writer =
     first_sample_writer
       \<lparr>raises := (\<lambda>tr c. case c of FaceVertexCounts_Set xs t \<Rightarrow> Some ''write failed''
                                  | _ \<Rightarrow> None)\<rparr>"

text \<open>The calls the second loop of \<^verbatim>\<open>assign_materials\<close> makes for one face group when none throws.\<close>

definition subset_calls_of :: "'f writer \<Rightarrow> 'f Object \<Rightarrow> int \<times> int list \<Rightarrow> 'f call list" where
  "subset_calls_of w ob g =
     (case give_current_material w ob (short_of_int (fst g + 1)) of
        None \<Rightarrow> []
      | Some m \<Rightarrow>
          [Ensure_Usd_Material m,
           MaterialBindSubset_Create (name_token (ensure_usd_material w m)) (snd g),
           Bind_To_Subset (ensure_usd_material w m) (name_token (ensure_usd_material w m))])"

text \<open>The writer of \<^verbatim>\<open>USDMeshWriter\<close>: its mesh is the object's evaluated mesh, not a copy.\<close>

definition mesh_writer :: "rat writer" where
  "mesh_writer = first_sample_writer\<lparr>get_export_mesh := USDMeshWriter_get_export_mesh\<rparr>"

text \<open>An object with two material slots, both empty.\<close>

definition bare_slots :: "rat HierarchyContext" where
  "bare_slots =
     \<lparr>object = \<lparr>id_name = ''OBBare'', ob_type = 1, ob_totcol = 2, mesh_eval = Some two_triangles\<rparr>\<rparr>"

section \<open>Results\<close>

subsection \<open>Loops and lists\<close>

lemma int_of_uint_small:
  assumes "uint w < 2 ^ 31"
  shows "int_of_uint w = uint w"
proof -
  have "- (2 ^ 31) \<le> uint w"
    by (rule order_trans [of _ 0]) simp_all
  then have "signed_take_bit 31 (uint w) = uint w"
    using assms by (rule signed_take_bit_int_eq_self)
  then show ?thesis
    by (simp add: int_of_uint_def sint_uint)
qed

lemma for_loop_fold:
  assumes "\<And>k s. i \<le> k \<Longrightarrow> k < n \<Longrightarrow> body k s = Some (f k s)"
  shows "for_loop i n body s = Some (fold f [i..n - 1] s)"
  using assms
proof (induction i n body s rule: for_loop.induct)
  case (1 i n body s)
  show ?case
  proof (cases "i < n")
    case True
    have b: "body i s = Some (f i s)" using "1.prems" True by simp
    have "for_loop (i + 1) n body (f i s) = Some (fold f [i + 1..n - 1] (f i s))"
      using "1.IH" [OF True b] "1.prems" by simp
    moreover have "[i..n - 1] = i # [i + 1..n - 1]"
      using True by (simp add: upto_rec1)
    ultimately show ?thesis
      using True b by (simp add: for_loop.simps [of i n])
  next
    case False
    then show ?thesis by (simp add: for_loop.simps [of i n])
  qed
qed

lemma array_read_in_range:
  "0 \<le> i \<Longrightarrow> i < int (length xs) \<Longrightarrow> array_read xs i = Some (xs ! nat i)"
  by (simp add: array_read_def)

lemma map_nth_upto: "map (\<lambda>k. xs ! nat k) [0..int (length xs) - 1] = xs"
proof (induction xs rule: rev_induct)
  case Nil
  then show ?case by simp
next
  case (snoc x xs)
  have "[0..int (length (xs @ [x])) - 1] = [0..int (length xs) - 1] @ [int (length xs)]"
    by (simp add: upto_rec2)
  moreover have "map (\<lambda>k. (xs @ [x]) ! nat k) [0..int (length xs) - 1]
        = map (\<lambda>k. xs ! nat k) [0..int (length xs) - 1]"
    by (rule map_cong) (auto simp: nth_append)
  ultimately show ?case using snoc by simp
qed

lemma map_nth_upto_shift:
  assumes "0 \<le> a" "0 \<le> n" "a + n \<le> int (length xs)"
  shows "map (\<lambda>j. xs ! nat (a + j)) [0..n - 1] = take (nat n) (drop (nat a) xs)"
proof -
  let ?ys = "take (nat n) (drop (nat a) xs)"
  have len: "int (length ?ys) = n" using assms by auto
  have "map (\<lambda>j. xs ! nat (a + j)) [0..n - 1] = map (\<lambda>j. ?ys ! nat j) [0..n - 1]"
  proof (rule map_cong [OF refl])
    fix j assume "j \<in> set [0..n - 1]"
    then have j: "0 \<le> j" "j < n" by auto
    then have "?ys ! nat j = xs ! (nat a + nat j)" using assms by (simp add: nth_take)
    then show "xs ! nat (a + j) = ?ys ! nat j" using j assms by (simp add: nat_add_distrib)
  qed
  also have "\<dots> = ?ys" using map_nth_upto [of ?ys] len by simp
  finally show ?thesis .
qed

lemma fold_nth_upto:
  "fold (\<lambda>k. g (xs ! nat k)) [0..int (length xs) - 1] s = fold g xs s"
proof -
  have "fold (\<lambda>k. g (xs ! nat k)) [0..int (length xs) - 1] s
      = fold g (map (\<lambda>k. xs ! nat k) [0..int (length xs) - 1]) s"
    by (simp add: fold_map comp_def)
  then show ?thesis by (simp add: map_nth_upto)
qed

lemma fold_points:
  "fold (\<lambda>x d. d\<lparr>points := points d @ [g x]\<rparr>) xs d = d\<lparr>points := points d @ map g xs\<rparr>"
  by (induction xs arbitrary: d) simp_all

lemma get_vertices_eq:
  assumes "int (length (mvert mesh)) = totvert mesh"
  shows "get_vertices mesh d = Some (d\<lparr>points := points d @ map co (mvert mesh)\<rparr>)"
proof -
  let ?f = "\<lambda>k d. d\<lparr>points := points d @ [co (mvert mesh ! nat k)]\<rparr>"
  have "get_vertices mesh d = Some (fold ?f [0..totvert mesh - 1] d)"
    unfolding get_vertices_def
    by (rule for_loop_fold) (simp add: array_read_in_range assms)
  also have "fold ?f [0..totvert mesh - 1] d
      = fold (\<lambda>x d. d\<lparr>points := points d @ [co x]\<rparr>) (mvert mesh) d"
    using fold_nth_upto [of "\<lambda>x d. d\<lparr>points := points d @ [co x]\<rparr>" "mvert mesh" d] assms
    by simp
  finally show ?thesis by (simp add: fold_points)
qed

lemma fold_creases:
  "fold (\<lambda>e d. if crease e = 0 then d
          else d\<lparr>crease_vertex_indices :=
                     crease_vertex_indices d @ [int_of_uint (v1 e), int_of_uint (v2 e)],
                   crease_lengths := crease_lengths d @ [2],
                   crease_sharpnesses := crease_sharpnesses d @ [crease_sharpness si (crease e)]\<rparr>)
     es d
   = d\<lparr>crease_vertex_indices := crease_vertex_indices d @
           concat (map (\<lambda>e. [int_of_uint (v1 e), int_of_uint (v2 e)]) (filter (\<lambda>e. crease e \<noteq> 0) es)),
        crease_lengths := crease_lengths d @ map (\<lambda>e. 2) (filter (\<lambda>e. crease e \<noteq> 0) es),
        crease_sharpnesses := crease_sharpnesses d @
           map (\<lambda>e. crease_sharpness si (crease e)) (filter (\<lambda>e. crease e \<noteq> 0) es)\<rparr>"
  by (induction es arbitrary: d) simp_all

lemma get_creases_eq:
  assumes "int (length (medge mesh)) = totedge mesh"
  shows "get_creases si mesh d =
     Some (d\<lparr>crease_vertex_indices := crease_vertex_indices d @
                concat (map (\<lambda>e. [int_of_uint (v1 e), int_of_uint (v2 e)]) (creased_edges mesh)),
              crease_lengths := crease_lengths d @ map (\<lambda>e. 2) (creased_edges mesh),
              crease_sharpnesses := crease_sharpnesses d @
                map (\<lambda>e. crease_sharpness si (crease e)) (creased_edges mesh)\<rparr>)"
proof -
  let ?g = "\<lambda>e d. if crease e = 0 then d
          else d\<lparr>crease_vertex_indices :=
                     crease_vertex_indices d @ [int_of_uint (v1 e), int_of_uint (v2 e)],
                   crease_lengths := crease_lengths d @ [2],
                   crease_sharpnesses := crease_sharpnesses d @ [crease_sharpness si (crease e)]\<rparr>"
  have "get_creases si mesh d = Some (fold (\<lambda>k. ?g (medge mesh ! nat k)) [0..totedge mesh - 1] d)"
    unfolding get_creases_def
    by (rule for_loop_fold) (simp add: array_read_in_range assms)
  also have "fold (\<lambda>k. ?g (medge mesh ! nat k)) [0..totedge mesh - 1] d = fold ?g (medge mesh) d"
    using fold_nth_upto [of ?g "medge mesh" d] assms by simp
  finally show ?thesis by (simp add: fold_creases creased_edges_def)
qed

lemma fold_face_indices:
  "fold (\<lambda>x d. d\<lparr>face_indices := face_indices d @ [g x]\<rparr>) xs d
     = d\<lparr>face_indices := face_indices d @ map g xs\<rparr>"
  by (induction xs arbitrary: d) simp_all

lemma inner_loop_eq:
  assumes "0 \<le> loopstart p" "0 \<le> totloop p" "loopstart p + totloop p \<le> int (length (mloop mesh))"
  shows "for_loop 0 (totloop p)
           (\<lambda>j d'. case array_read (mloop mesh) (loopstart p + j) of
                      None \<Rightarrow> None
                    | Some loop \<Rightarrow>
                        Some (d'\<lparr>face_indices := face_indices d' @ [int_of_uint (loop_v loop)]\<rparr>))
           d
         = Some (d\<lparr>face_indices := face_indices d @
                     map (\<lambda>l. int_of_uint (loop_v l)) (poly_loops mesh p)\<rparr>)"
proof -
  let ?f = "\<lambda>j d'. d'\<lparr>face_indices := face_indices d' @
                 [int_of_uint (loop_v (mloop mesh ! nat (loopstart p + j)))]\<rparr>"
  have "for_loop 0 (totloop p)
           (\<lambda>j d'. case array_read (mloop mesh) (loopstart p + j) of
                      None \<Rightarrow> None
                    | Some loop \<Rightarrow>
                        Some (d'\<lparr>face_indices := face_indices d' @ [int_of_uint (loop_v loop)]\<rparr>))
           d = Some (fold ?f [0..totloop p - 1] d)"
    by (rule for_loop_fold) (use assms in \<open>simp add: array_read_in_range\<close>)
  moreover have "map (\<lambda>j. int_of_uint (loop_v (mloop mesh ! nat (loopstart p + j)))) [0..totloop p - 1]
      = map (\<lambda>l. int_of_uint (loop_v l)) (poly_loops mesh p)"
    using map_nth_upto_shift [OF assms, symmetric]
    by (simp add: poly_loops_def comp_def)
  ultimately show ?thesis
    by (simp add: fold_face_indices)
qed

lemma fold_polys:
  "fold (\<lambda>k d. d\<lparr>face_vertex_counts := face_vertex_counts d @ [c k],
                   face_indices := face_indices d @ l k,
                   face_groups := (if b then map_push_back (m k) k (face_groups d) else face_groups d)\<rparr>)
     ks d
   = d\<lparr>face_vertex_counts := face_vertex_counts d @ map c ks,
        face_indices := face_indices d @ concat (map l ks),
        face_groups := (if b then fold (\<lambda>k. map_push_back (m k) k) ks (face_groups d)
                        else face_groups d)\<rparr>"
  by (induction ks arbitrary: d) simp_all

lemma map_comp_nth_upto:
  "map (\<lambda>k. g (xs ! nat k)) [0..int (length xs) - 1] = map g xs"
proof -
  have "map (\<lambda>k. g (xs ! nat k)) [0..int (length xs) - 1]
      = map g (map (\<lambda>k. xs ! nat k) [0..int (length xs) - 1])"
    by (simp add: comp_def)
  then show ?thesis by (simp add: map_nth_upto)
qed

lemma get_loops_polys_eq:
  assumes "mesh_ok mesh"
  shows "get_loops_polys mesh d =
     Some (d\<lparr>face_vertex_counts := face_vertex_counts d @ map totloop (mpoly mesh),
              face_indices := face_indices d @
                concat (map (\<lambda>p. map (\<lambda>l. int_of_uint (loop_v l)) (poly_loops mesh p)) (mpoly mesh)),
              face_groups := (if 1 < totcol mesh
                 then fold (\<lambda>k. map_push_back (mat_nr (mpoly mesh ! nat k)) k)
                        [0..totpoly mesh - 1] (face_groups d)
                 else face_groups d)\<rparr>)"
proof -
  let ?P = "\<lambda>k. mpoly mesh ! nat k"
  let ?L = "\<lambda>p. map (\<lambda>l. int_of_uint (loop_v l)) (poly_loops mesh p)"
  let ?step = "\<lambda>k d. d\<lparr>face_vertex_counts := face_vertex_counts d @ [totloop (?P k)],
                   face_indices := face_indices d @ ?L (?P k),
                   face_groups := (if 1 < totcol mesh
                      then map_push_back (mat_nr (?P k)) k (face_groups d) else face_groups d)\<rparr>"
  have len: "int (length (mpoly mesh)) = totpoly mesh"
    and lenl: "int (length (mloop mesh)) = mesh_totloop mesh"
    and polys: "\<And>p. p \<in> set (mpoly mesh) \<Longrightarrow>
        0 \<le> loopstart p \<and> 0 \<le> totloop p \<and> loopstart p + totloop p \<le> int (length (mloop mesh))"
    using assms by (auto simp: mesh_ok_def list_all_iff)
  have "get_loops_polys mesh d = Some (fold ?step [0..totpoly mesh - 1] d)"
    unfolding get_loops_polys_def Let_def
  proof (rule for_loop_fold)
    fix k s assume k: "0 \<le> k" "k < totpoly mesh"
    then have "?P k \<in> set (mpoly mesh)" using len by simp
    from polys [OF this] show "(case array_read (mpoly mesh) k of None \<Rightarrow> None
          | Some poly \<Rightarrow>
              (case for_loop 0 (totloop poly)
                      (\<lambda>j d'. case array_read (mloop mesh) (loopstart poly + j) of
                                 None \<Rightarrow> None
                               | Some loop \<Rightarrow>
                                   Some (d'\<lparr>face_indices :=
                                               face_indices d' @ [int_of_uint (loop_v loop)]\<rparr>))
                      (s\<lparr>face_vertex_counts := face_vertex_counts s @ [totloop poly]\<rparr>) of
                 None \<Rightarrow> None
               | Some d'' \<Rightarrow>
                   Some (if 1 < totcol mesh
                         then d''\<lparr>face_groups := map_push_back (mat_nr poly) k (face_groups d'')\<rparr>
                         else d''))) = Some (?step k s)"
      using k len by (simp add: array_read_in_range inner_loop_eq)
  qed
  also have "fold ?step [0..totpoly mesh - 1] d
     = d\<lparr>face_vertex_counts := face_vertex_counts d @ map (\<lambda>k. totloop (?P k)) [0..totpoly mesh - 1],
          face_indices := face_indices d @ concat (map (\<lambda>k. ?L (?P k)) [0..totpoly mesh - 1]),
          face_groups := (if 1 < totcol mesh
             then fold (\<lambda>k. map_push_back (mat_nr (?P k)) k) [0..totpoly mesh - 1] (face_groups d)
             else face_groups d)\<rparr>"
    by (rule fold_polys)
  also have "map (\<lambda>k. totloop (?P k)) [0..totpoly mesh - 1] = map totloop (mpoly mesh)"
    using map_comp_nth_upto [of totloop "mpoly mesh"] len by simp
  also have "map (\<lambda>k. ?L (?P k)) [0..totpoly mesh - 1] = map ?L (mpoly mesh)"
    using map_comp_nth_upto [of ?L "mpoly mesh"] len by simp
  finally show ?thesis .
qed

lemma geometry_data_eq:
  assumes "mesh_ok mesh"
  shows "get_geometry_data si mesh empty_mesh_data =
     Some \<lparr>points = map co (mvert mesh),
           face_vertex_counts = map totloop (mpoly mesh),
           face_indices =
             concat (map (\<lambda>p. map (\<lambda>l. int_of_uint (loop_v l)) (poly_loops mesh p)) (mpoly mesh)),
           face_groups = (if 1 < totcol mesh then grouped_faces mesh else []),
           crease_lengths = map (\<lambda>e. 2) (creased_edges mesh),
           crease_vertex_indices =
             concat (map (\<lambda>e. [int_of_uint (v1 e), int_of_uint (v2 e)]) (creased_edges mesh)),
           crease_sharpnesses = map (\<lambda>e. crease_sharpness si (crease e)) (creased_edges mesh)\<rparr>"
proof -
  have lens: "int (length (mvert mesh)) = totvert mesh" "int (length (medge mesh)) = totedge mesh"
    using assms by (simp_all add: mesh_ok_def)
  show ?thesis
    unfolding get_geometry_data_def
    by (simp add: get_vertices_eq [OF lens(1)] get_loops_polys_eq [OF assms]
        get_creases_eq [OF lens(2)] empty_mesh_data_def grouped_faces_def)
qed

lemma map_push_back_keys:
  "fst ` set (map_push_back k i fg) = insert k (fst ` set fg)"
  by (induction k i fg rule: map_push_back.induct) auto

lemma map_push_back_sorted:
  "sorted_wrt (<) (map fst fg) \<Longrightarrow> sorted_wrt (<) (map fst (map_push_back k i fg))"
proof (induction k i fg rule: map_push_back.induct)
  case (1 k i)
  then show ?case by simp
next
  case (2 k i k' xs rest)
  have "\<forall>x \<in> fst ` set (map_push_back k i rest). k' < x" if "k' < k"
    using that 2(2) by (auto simp: map_push_back_keys)
  then show ?case using 2 by auto
qed

lemma map_push_back_lookup:
  "sorted_wrt (<) (map fst fg) \<Longrightarrow>
   map_of (map_push_back k i fg) =
     (map_of fg)(k \<mapsto> (case map_of fg k of None \<Rightarrow> [i] | Some xs \<Rightarrow> xs @ [i]))"
proof (induction k i fg rule: map_push_back.induct)
  case (1 k i)
  then show ?case by simp
next
  case (2 k i k' xs rest)
  have nk: "map_of rest k = None" if "k < k'"
  proof -
    have "k \<notin> fst ` set rest" using that 2(2) by auto
    then show ?thesis by (simp add: map_of_eq_None_iff)
  qed
  show ?case
  proof (cases "k = k'")
    case True
    then show ?thesis by (auto simp: fun_eq_iff)
  next
    case False
    show ?thesis
    proof (cases "k < k'")
      case True
      then show ?thesis using False nk by (auto simp: fun_eq_iff)
    next
      case gt: False
      then show ?thesis using False 2 by (auto simp: fun_eq_iff)
    qed
  qed
qed

lemma fold_push_back_inv:
  "sorted_wrt (<) (map fst (fold (\<lambda>k. map_push_back (M k) k) [0..int n - 1] [])) \<and>
   (\<forall>key. map_of (fold (\<lambda>k. map_push_back (M k) k) [0..int n - 1] []) key =
      (if filter (\<lambda>k. M k = key) [0..int n - 1] = [] then None
       else Some (filter (\<lambda>k. M k = key) [0..int n - 1])))"
proof (induction n)
  case 0
  then show ?case by simp
next
  case (Suc n)
  let ?G = "fold (\<lambda>k. map_push_back (M k) k) [0..int n - 1] []"
  have up: "[0..int (Suc n) - 1] = [0..int n - 1] @ [int n]"
    by (simp add: upto_rec2)
  have G': "fold (\<lambda>k. map_push_back (M k) k) [0..int (Suc n) - 1] []
      = map_push_back (M (int n)) (int n) ?G"
    by (simp only: up fold_append) simp
  from Suc have srt: "sorted_wrt (<) (map fst ?G)" by blast
  from Suc have look: "\<And>key. map_of ?G key =
      (if filter (\<lambda>k. M k = key) [0..int n - 1] = [] then None
       else Some (filter (\<lambda>k. M k = key) [0..int n - 1]))" by blast
  have "sorted_wrt (<) (map fst (map_push_back (M (int n)) (int n) ?G))"
    using srt by (rule map_push_back_sorted)
  moreover have "map_of (map_push_back (M (int n)) (int n) ?G) key =
      (if filter (\<lambda>k. M k = key) [0..int (Suc n) - 1] = [] then None
       else Some (filter (\<lambda>k. M k = key) [0..int (Suc n) - 1]))" for key
    unfolding map_push_back_lookup [OF srt] up
    by (simp add: look)
  ultimately show ?case unfolding G' by blast
qed

lemma grouped_faces_sorted:
  "sorted_wrt (<) (map fst (grouped_faces mesh))"
proof (cases "0 \<le> totpoly mesh")
  case True
  then show ?thesis
    using fold_push_back_inv [of "\<lambda>k. mat_nr (mpoly mesh ! nat k)" "nat (totpoly mesh)"]
    by (simp add: grouped_faces_def)
next
  case False
  then show ?thesis by (simp add: grouped_faces_def)
qed

lemma grouped_faces_lookup:
  "map_of (grouped_faces mesh) key =
     (if filter (\<lambda>k. mat_nr (mpoly mesh ! nat k) = key) [0..totpoly mesh - 1] = [] then None
      else Some (filter (\<lambda>k. mat_nr (mpoly mesh ! nat k) = key) [0..totpoly mesh - 1]))"
proof (cases "0 \<le> totpoly mesh")
  case True
  then show ?thesis
    using fold_push_back_inv [of "\<lambda>k. mat_nr (mpoly mesh ! nat k)" "nat (totpoly mesh)"]
    by (simp add: grouped_faces_def)
next
  case False
  then show ?thesis by (simp add: grouped_faces_def)
qed

lemma grouped_faces_entry:
  "(key, gs) \<in> set (grouped_faces mesh) \<longleftrightarrow>
     gs \<noteq> [] \<and> gs = filter (\<lambda>k. mat_nr (mpoly mesh ! nat k) = key) [0..totpoly mesh - 1]"
proof -
  have "distinct (map fst (grouped_faces mesh))"
    using grouped_faces_sorted [of mesh] strict_sorted_iff by blast
  then have "(key, gs) \<in> set (grouped_faces mesh) \<longleftrightarrow> map_of (grouped_faces mesh) key = Some gs"
    by simp
  then show ?thesis by (auto simp: grouped_faces_lookup)
qed

lemma sum_list_poly_loops:
  assumes "\<And>p. p \<in> set ps \<Longrightarrow>
      0 \<le> loopstart p \<and> 0 \<le> totloop p \<and> loopstart p + totloop p \<le> int (length (mloop mesh))"
  shows "sum_list (map totloop ps) =
     int (length (concat (map (\<lambda>p. map (\<lambda>l. int_of_uint (loop_v l)) (poly_loops mesh p)) ps)))"
  using assms
proof (induction ps)
  case Nil
  then show ?case by simp
next
  case (Cons p ps)
  have "0 \<le> loopstart p \<and> 0 \<le> totloop p \<and> loopstart p + totloop p \<le> int (length (mloop mesh))"
    using Cons.prems by simp
  then have "int (length (poly_loops mesh p)) = totloop p"
    by (auto simp: poly_loops_def)
  then show ?case using Cons by simp
qed

text \<open>What the extraction gives on the example mesh.\<close>

lemma two_triangles_ok: "mesh_ok two_triangles"
  by (simp add: mesh_ok_def two_triangles_def)

lemma sharpness_128: "crease_sharpness 10 128 = 8421505 / 16777216"
  by code_simp

lemma two_triangles_data:
  "get_geometry_data 10 two_triangles empty_mesh_data =
     Some \<lparr>points = [(0, 0, 0), (1, 0, 0), (1, 1, 0), (0, 1, 0)],
           face_vertex_counts = [3, 3],
           face_indices = [0, 1, 2, 0, 2, 3],
           face_groups = [(0, [1]), (1, [0])],
           crease_lengths = [2, 2],
           crease_vertex_indices = [1, 2, 0, 2],
           crease_sharpnesses = [10, 8421505 / 16777216]\<rparr>"
  unfolding geometry_data_eq [OF two_triangles_ok]
  by (simp add: two_triangles_def poly_loops_def creased_edges_def grouped_faces_def
      int_of_uint_def upto.simps sharpness_128)
     (simp add: crease_sharpness_def)

text \<open>
  Claim C2. On a well-formed mesh \<^verbatim>\<open>get_geometry_data\<close> returns, and in the data it fills
  \<open>points\<close> is the list of the vertex coordinates in index order, as many as \<open>totvert\<close>;
  \<open>face_vertex_counts\<close> is the list of the polygons' loop counts in polygon order, as many
  as \<open>totpoly\<close>; \<open>face_indices\<close> is the concatenation, in polygon order, of the vertex
  references of each polygon's loops in loop order. A reference is stored as the \<^verbatim>\<open>int\<close>
  with the same bits, which is the reference itself when the references are below \<open>2 ^ 31\<close>.
\<close>

theorem get_geometry_data_points_and_faces:
  assumes "mesh_ok mesh"
  shows "\<exists>d. get_geometry_data si mesh empty_mesh_data = Some d \<and>
     points d = map co (mvert mesh) \<and> int (length (points d)) = totvert mesh \<and>
     face_vertex_counts d = map totloop (mpoly mesh) \<and>
     int (length (face_vertex_counts d)) = totpoly mesh \<and>
     face_indices d =
       concat (map (\<lambda>p. map (\<lambda>l. int_of_uint (loop_v l)) (poly_loops mesh p)) (mpoly mesh)) \<and>
     ((\<forall>l \<in> set (mloop mesh). uint (loop_v l) < 2 ^ 31) \<longrightarrow>
        face_indices d =
          concat (map (\<lambda>p. map (\<lambda>l. uint (loop_v l)) (poly_loops mesh p)) (mpoly mesh)))"
proof -
  have sub: "set (poly_loops mesh p) \<subseteq> set (mloop mesh)" for p
    unfolding poly_loops_def
    by (rule subset_trans [OF set_take_subset set_drop_subset])
  have eq: "concat (map (\<lambda>p. map (\<lambda>l. int_of_uint (loop_v l)) (poly_loops mesh p)) (mpoly mesh)) =
      concat (map (\<lambda>p. map (\<lambda>l. uint (loop_v l)) (poly_loops mesh p)) (mpoly mesh))"
    if small: "\<forall>l \<in> set (mloop mesh). uint (loop_v l) < 2 ^ 31"
  proof -
    have "map (\<lambda>l. int_of_uint (loop_v l)) (poly_loops mesh p) =
        map (\<lambda>l. uint (loop_v l)) (poly_loops mesh p)" for p
      using small sub [of p] by (intro map_cong refl int_of_uint_small) blast
    then have "(\<lambda>p. map (\<lambda>l. int_of_uint (loop_v l)) (poly_loops mesh p)) =
        (\<lambda>p. map (\<lambda>l. uint (loop_v l)) (poly_loops mesh p))"
      by (rule ext)
    then show ?thesis by (simp only:)
  qed
  show ?thesis
    using assms geometry_data_eq [OF assms, of si] eq by (simp add: mesh_ok_def)
qed

theorem get_geometry_data_points_and_faces_witness:
  "mesh_ok two_triangles \<and>
   list_all (\<lambda>l. uint (loop_v l) < 2 ^ 31) (mloop two_triangles) \<and>
   (\<exists>d. get_geometry_data 10 two_triangles empty_mesh_data = Some d \<and>
        points d = [(0, 0, 0), (1, 0, 0), (1, 1, 0), (0, 1, 0)] \<and>
        face_vertex_counts d = [3, 3] \<and>
        face_indices d = [0, 1, 2, 0, 2, 3])"
proof -
  have small: "\<forall>l \<in> set (mloop two_triangles). uint (loop_v l) < 2 ^ 31"
    by (simp add: two_triangles_def)
  from get_geometry_data_points_and_faces [OF two_triangles_ok, of 10] small obtain d where
    d: "get_geometry_data 10 two_triangles empty_mesh_data = Some d"
       "points d = map co (mvert two_triangles)"
       "face_vertex_counts d = map totloop (mpoly two_triangles)"
       "face_indices d = concat (map (\<lambda>p. map (\<lambda>l. uint (loop_v l))
           (poly_loops two_triangles p)) (mpoly two_triangles))"
    by blast
  have "points d = [(0, 0, 0), (1, 0, 0), (1, 1, 0), (0, 1, 0)]"
    using d(2) by (simp add: two_triangles_def)
  moreover have "face_vertex_counts d = [3, 3]"
    using d(3) by (simp add: two_triangles_def)
  moreover have "face_indices d = [0, 1, 2, 0, 2, 3]"
    using d(4) by (simp add: two_triangles_def poly_loops_def)
  moreover have "list_all (\<lambda>l. uint (loop_v l) < 2 ^ 31) (mloop two_triangles)"
    using small by (simp only: list_all_iff)
  ultimately show ?thesis using two_triangles_ok d(1) by blast
qed

text \<open>
  Claim C3. On a well-formed mesh the data filled by \<^verbatim>\<open>get_geometry_data\<close> satisfies: the
  sum of \<open>face_vertex_counts\<close> is the length of \<open>face_indices\<close>; \<open>crease_lengths\<close> and
  \<open>crease_sharpnesses\<close> have the same length; the sum of \<open>crease_lengths\<close> is the length of
  \<open>crease_vertex_indices\<close>.
\<close>

theorem get_geometry_data_invariant:
  assumes "mesh_ok mesh"
  shows "\<exists>d. get_geometry_data si mesh empty_mesh_data = Some d \<and>
     sum_list (face_vertex_counts d) = int (length (face_indices d)) \<and>
     length (crease_lengths d) = length (crease_sharpnesses d) \<and>
     sum_list (crease_lengths d) = int (length (crease_vertex_indices d))"
proof -
  have "\<And>p. p \<in> set (mpoly mesh) \<Longrightarrow>
      0 \<le> loopstart p \<and> 0 \<le> totloop p \<and> loopstart p + totloop p \<le> int (length (mloop mesh))"
    using assms by (auto simp: mesh_ok_def list_all_iff)
  then have faces: "sum_list (map totloop (mpoly mesh)) =
     int (length (concat (map (\<lambda>p. map (\<lambda>l. int_of_uint (loop_v l)) (poly_loops mesh p))
        (mpoly mesh))))"
    by (rule sum_list_poly_loops)
  have creases: "sum_list (map (\<lambda>e. 2) es) =
      int (length (concat (map (\<lambda>e. [int_of_uint (v1 e), int_of_uint (v2 e)]) es)))" for es :: "MEdge list"
    by (induction es) simp_all
  show ?thesis
    using geometry_data_eq [OF assms, of si] faces creases [of "creased_edges mesh"]
    by simp
qed

theorem get_geometry_data_invariant_witness:
  "mesh_ok two_triangles \<and>
   (\<exists>d. get_geometry_data 10 two_triangles empty_mesh_data = Some d \<and>
     face_vertex_counts d = [3, 3] \<and> length (face_indices d) = 6 \<and>
     sum_list (face_vertex_counts d) = int (length (face_indices d)) \<and>
     length (crease_lengths d) = 2 \<and> length (crease_sharpnesses d) = 2 \<and>
     crease_lengths d = [2, 2] \<and> length (crease_vertex_indices d) = 4 \<and>
     sum_list (crease_lengths d) = int (length (crease_vertex_indices d)))"
proof -
  from get_geometry_data_invariant [OF two_triangles_ok, of 10] obtain d where
    d: "get_geometry_data 10 two_triangles empty_mesh_data = Some d"
       "sum_list (face_vertex_counts d) = int (length (face_indices d))"
       "length (crease_lengths d) = length (crease_sharpnesses d)"
       "sum_list (crease_lengths d) = int (length (crease_vertex_indices d))"
    by blast
  from d(1) have
    "face_vertex_counts d = [3, 3]" "length (face_indices d) = 6"
    "crease_lengths d = [2, 2]" "length (crease_sharpnesses d) = 2"
    "length (crease_vertex_indices d) = 4"
    by (auto simp: two_triangles_data)
  then show ?thesis using two_triangles_ok d by auto
qed

text \<open>
  Claim C5. With more than one material slot the face groups are what appending each
  polygon's index, in polygon order, at the key of its material slot gives: the group at a
  key is the increasing list of the indices of the polygons on that slot, and a key that no
  polygon uses has no group. With one slot or none the face groups stay empty, whatever the
  polygons are.
\<close>

theorem face_groups_iff_many_slots:
  assumes "mesh_ok mesh"
  shows "\<exists>d. get_geometry_data si mesh empty_mesh_data = Some d \<and>
     (1 < totcol mesh \<longrightarrow>
        face_groups d =
          fold (\<lambda>k. map_push_back (mat_nr (mpoly mesh ! nat k)) k) [0..totpoly mesh - 1] [] \<and>
        (\<forall>key. map_of (face_groups d) key =
           (if filter (\<lambda>k. mat_nr (mpoly mesh ! nat k) = key) [0..totpoly mesh - 1] = [] then None
            else Some (filter (\<lambda>k. mat_nr (mpoly mesh ! nat k) = key) [0..totpoly mesh - 1])))) \<and>
     (totcol mesh \<le> 1 \<longrightarrow> face_groups d = [])"
  using geometry_data_eq [OF assms, of si] grouped_faces_lookup [of mesh]
  by (simp add: grouped_faces_def)

theorem face_groups_iff_many_slots_witness:
  "mesh_ok two_triangles \<and> 1 < totcol two_triangles \<and>
   (\<exists>d. get_geometry_data 10 two_triangles empty_mesh_data = Some d \<and>
        face_groups d = [(0, [1]), (1, [0])]) \<and>
   mesh_ok two_triangles_one_slot \<and> totcol two_triangles_one_slot \<le> 1 \<and>
   (\<exists>d. get_geometry_data 10 two_triangles_one_slot empty_mesh_data = Some d \<and>
        face_groups d = [])"
proof -
  have ok: "mesh_ok two_triangles" and ok1: "mesh_ok two_triangles_one_slot"
    by (simp_all add: mesh_ok_def two_triangles_def two_triangles_one_slot_def)
  have cols: "1 < totcol two_triangles" "totcol two_triangles_one_slot \<le> 1"
    by (simp_all add: two_triangles_def two_triangles_one_slot_def)
  from face_groups_iff_many_slots [OF ok, of 10] cols(1) obtain d where
    d: "get_geometry_data 10 two_triangles empty_mesh_data = Some d"
       "face_groups d = fold (\<lambda>k. map_push_back (mat_nr (mpoly two_triangles ! nat k)) k)
           [0..totpoly two_triangles - 1] []"
    by blast
  have "face_groups d = [(0, [1]), (1, [0])]"
    using d(2) by (simp add: two_triangles_def upto.simps)
  moreover from face_groups_iff_many_slots [OF ok1, of 10] cols(2) obtain d1 where
    "get_geometry_data 10 two_triangles_one_slot empty_mesh_data = Some d1"
    "face_groups d1 = []"
    by blast
  ultimately show ?thesis using ok ok1 cols d(1) by blast
qed

text \<open>
  Claim C10. With more than one material slot the face groups partition the polygon indices:
  every index below \<open>totpoly\<close> is in the group keyed by its polygon's material slot; a group
  holds only indices below \<open>totpoly\<close> of polygons on the group's slot; keys are not repeated
  and no index occurs twice in all the groups together; every group is strictly increasing.
\<close>

theorem face_groups_partition:
  assumes "mesh_ok mesh" and "1 < totcol mesh"
  shows "\<exists>d. get_geometry_data si mesh empty_mesh_data = Some d \<and>
     (\<forall>i. 0 \<le> i \<and> i < totpoly mesh \<longrightarrow>
        (\<exists>gs. (mat_nr (mpoly mesh ! nat i), gs) \<in> set (face_groups d) \<and> i \<in> set gs)) \<and>
     (\<forall>(key, gs) \<in> set (face_groups d). \<forall>i \<in> set gs.
        0 \<le> i \<and> i < totpoly mesh \<and> mat_nr (mpoly mesh ! nat i) = key) \<and>
     distinct (map fst (face_groups d)) \<and>
     distinct (concat (map snd (face_groups d))) \<and>
     (\<forall>(key, gs) \<in> set (face_groups d). sorted_wrt (<) gs)"
proof -
  let ?M = "\<lambda>k. mat_nr (mpoly mesh ! nat k)"
  let ?G = "grouped_faces mesh"
  let ?F = "\<lambda>key. filter (\<lambda>k. ?M k = key) [0..totpoly mesh - 1]"
  have entry: "\<And>key gs. (key, gs) \<in> set ?G \<longleftrightarrow> gs \<noteq> [] \<and> gs = ?F key"
    by (rule grouped_faces_entry)
  have p1: "\<exists>gs. (?M i, gs) \<in> set ?G \<and> i \<in> set gs" if "0 \<le> i \<and> i < totpoly mesh" for i
  proof -
    have "i \<in> set (?F (?M i))" using that by simp
    then show ?thesis using entry by (metis empty_iff list.set(1))
  qed
  have p2: "\<forall>(key, gs) \<in> set ?G. \<forall>i \<in> set gs.
        0 \<le> i \<and> i < totpoly mesh \<and> ?M i = key"
    using entry by auto
  have p3: "distinct (map fst ?G)"
    using grouped_faces_sorted [of mesh] strict_sorted_iff by blast
  have p5: "\<forall>(key, gs) \<in> set ?G. sorted_wrt (<) gs"
  proof -
    have "sorted_wrt (<) [0..totpoly mesh - 1]"
      by (simp add: strict_sorted_iff)
    then have "sorted_wrt (<) (?F key)" for key
      by (rule sorted_wrt_filter)
    then show ?thesis using entry by auto
  qed
  have p4: "distinct (concat (map snd ?G))"
  proof (rule distinct_concat)
    show "distinct (map snd ?G)"
    proof -
      have "inj_on snd (set ?G)"
      proof (rule inj_onI)
        fix x y assume xy: "x \<in> set ?G" "y \<in> set ?G" "snd x = snd y"
        obtain k gs where x: "x = (k, gs)" by (cases x)
        obtain k' gs' where y: "y = (k', gs')" by (cases y)
        from xy x y entry have ne: "gs \<noteq> []" and g: "gs = ?F k" and g': "gs = ?F k'"
          by auto
        from ne obtain i where i: "i \<in> set gs" by (cases gs) auto
        have "i \<in> set (?F k)" using i g by simp
        then have "?M i = k" by simp
        moreover have "i \<in> set (?F k')" using i g' by simp
        then have "?M i = k'" by simp
        ultimately show "x = y" using x y xy(3) by simp
      qed
      moreover have "distinct ?G" using p3 by (rule distinct_map [THEN iffD1, THEN conjunct1])
      ultimately show ?thesis by (simp add: distinct_map)
    qed
  next
    fix ys assume "ys \<in> set (map snd ?G)"
    then obtain k where "(k, ys) \<in> set ?G" by auto
    with p5 have "sorted_wrt (<) ys" by auto
    then show "distinct ys" using strict_sorted_iff by blast
  next
    fix ys zs assume a: "ys \<in> set (map snd ?G)" "zs \<in> set (map snd ?G)" "ys \<noteq> zs"
    then obtain k k' where "(k, ys) \<in> set ?G" "(k', zs) \<in> set ?G" by auto
    with entry have "ys = ?F k" "zs = ?F k'" by auto
    with a(3) have "k \<noteq> k'" by auto
    then show "set ys \<inter> set zs = {}"
      using \<open>ys = ?F k\<close> \<open>zs = ?F k'\<close> by auto
  qed
  show ?thesis
    using geometry_data_eq [OF assms(1), of si] assms(2) p1 p2 p3 p4 p5
    by simp
qed

theorem face_groups_partition_witness:
  "mesh_ok two_triangles \<and> 1 < totcol two_triangles \<and>
   (\<exists>d gs. get_geometry_data 10 two_triangles empty_mesh_data = Some d \<and>
      (1, gs) \<in> set (face_groups d) \<and> 0 \<in> set gs \<and> sorted_wrt (<) gs \<and>
      distinct (concat (map snd (face_groups d))))"
proof -
  have ok: "mesh_ok two_triangles"
    by (simp add: mesh_ok_def two_triangles_def)
  have cols: "1 < totcol two_triangles"
    by (simp add: two_triangles_def)
  from face_groups_partition [OF ok cols, of 10] obtain d where
    d: "get_geometry_data 10 two_triangles empty_mesh_data = Some d"
       "\<forall>i. 0 \<le> i \<and> i < totpoly two_triangles \<longrightarrow>
          (\<exists>gs. (mat_nr (mpoly two_triangles ! nat i), gs) \<in> set (face_groups d) \<and> i \<in> set gs)"
       "distinct (concat (map snd (face_groups d)))"
       "\<forall>(key, gs) \<in> set (face_groups d). sorted_wrt (<) gs"
    by blast
  have "0 \<le> (0::int) \<and> 0 < totpoly two_triangles"
    by (simp add: two_triangles_def)
  with d(2) obtain gs where
    gs: "(mat_nr (mpoly two_triangles ! nat 0), gs) \<in> set (face_groups d)" "0 \<in> set gs"
    by blast
  have "mat_nr (mpoly two_triangles ! nat 0) = 1"
    by (simp add: two_triangles_def)
  with gs have "(1, gs) \<in> set (face_groups d)" by simp
  moreover from this d(4) have "sorted_wrt (<) gs" by auto
  ultimately show ?thesis using ok cols d(1) d(3) gs(2) by blast
qed

subsection \<open>Rounding to binary32\<close>

lemma pow2_powi: "pow2 e = 2 powi e"
  by (simp add: pow2_def power_int_def field_simps)

lemma pow2_pos: "0 < pow2 e"
  by (simp add: pow2_powi)

lemma pow2_add: "pow2 (a + b) = pow2 a * pow2 b"
  by (simp add: pow2_powi power_int_add)

lemma pow2_mono: "a \<le> b \<Longrightarrow> pow2 a \<le> pow2 b"
  by (simp add: pow2_powi power_int_increasing)

lemma pow2_nat: "0 \<le> e \<Longrightarrow> pow2 e = 2 ^ nat e"
  by (simp add: pow2_def)

lemma bit_length_bounds:
  "0 < n \<Longrightarrow> 1 \<le> bit_length n \<and> 2 ^ nat (bit_length n - 1) \<le> n \<and> n < 2 ^ nat (bit_length n)"
proof (induction n rule: bit_length.induct)
  case (1 n)
  show ?case
  proof (cases "n div 2 = 0")
    case True
    then have n1: "n = 1" using "1.prems" by auto
    have "bit_length 0 = 0" by (subst bit_length.simps) simp
    then have "bit_length 1 = 1" by (subst bit_length.simps) simp
    then have "bit_length n = 1" by (simp add: n1)
    then show ?thesis by (simp add: n1)
  next
    case False
    then have pos: "0 < n div 2" using "1.prems" by (simp add: pos_imp_zdiv_pos_iff)
    let ?b = "bit_length (n div 2)"
    have IH: "1 \<le> ?b" "2 ^ nat (?b - 1) \<le> n div 2" "n div 2 < 2 ^ nat ?b"
      using "1.IH" [OF _ pos] "1.prems" by simp_all
    have bl: "bit_length n = ?b + 1"
      using "1.prems" by (simp add: bit_length.simps [of n])
    have e1: "nat ?b = Suc (nat (?b - 1))" using IH(1) by simp
    have "2 * 2 ^ nat (?b - 1) \<le> n" using IH(2) by linarith
    then have lo: "2 ^ nat ?b \<le> n" by (simp add: e1)
    have "n < 2 * 2 ^ nat ?b" using IH(3) by linarith
    moreover have "nat (?b + 1) = Suc (nat ?b)" using IH(1) by simp
    ultimately have hi: "n < 2 ^ nat (?b + 1)" by simp
    show ?thesis using IH(1) lo hi by (simp add: bl)
  qed
qed

lemma floor_log2_bounds:
  assumes "0 < a"
  shows "pow2 (floor_log2 a) \<le> a \<and> a < pow2 (floor_log2 a + 1)"
proof -
  obtain p q where pq: "quotient_of a = (p, q)" by (cases "quotient_of a")
  have q: "0 < q" using pq by (rule quotient_of_denom_pos)
  have a: "a = of_int p / of_int q" using pq by (rule quotient_of_div)
  have p: "0 < p" using assms q a by (simp add: zero_less_divide_iff)
  let ?bp = "bit_length p" and ?bq = "bit_length q"
  from bit_length_bounds [OF p] have bp: "1 \<le> ?bp" "2 ^ nat (?bp - 1) \<le> p" "p < 2 ^ nat ?bp"
    by simp_all
  from bit_length_bounds [OF q] have bq: "1 \<le> ?bq" "2 ^ nat (?bq - 1) \<le> q" "q < 2 ^ nat ?bq"
    by simp_all
  have rp: "pow2 (?bp - 1) \<le> of_int p" "of_int p < pow2 ?bp"
  proof -
    have "(of_int (2 ^ nat (?bp - 1)) :: rat) \<le> of_int p" using bp(2) by (simp only: of_int_le_iff)
    then show "pow2 (?bp - 1) \<le> of_int p" using bp(1) by (simp add: pow2_nat)
    have "(of_int p :: rat) < of_int (2 ^ nat ?bp)" using bp(3) by (simp only: of_int_less_iff)
    then show "of_int p < pow2 ?bp" using bp(1) by (simp add: pow2_nat)
  qed
  have rq: "pow2 (?bq - 1) \<le> of_int q" "of_int q < pow2 ?bq"
  proof -
    have "(of_int (2 ^ nat (?bq - 1)) :: rat) \<le> of_int q" using bq(2) by (simp only: of_int_le_iff)
    then show "pow2 (?bq - 1) \<le> of_int q" using bq(1) by (simp add: pow2_nat)
    have "(of_int q :: rat) < of_int (2 ^ nat ?bq)" using bq(3) by (simp only: of_int_less_iff)
    then show "of_int q < pow2 ?bq" using bq(1) by (simp add: pow2_nat)
  qed
  let ?d = "?bp - ?bq"
  have Q: "(0::rat) < of_int q" using q by simp
  have lo: "pow2 (?d - 1) \<le> a"
  proof -
    have "pow2 (?d - 1) * of_int q \<le> pow2 (?d - 1) * pow2 ?bq"
      using rq(2) pow2_pos [of "?d - 1"] by (simp add: mult_left_mono less_imp_le)
    also have "\<dots> = pow2 (?bp - 1)"
      using pow2_add [of "?d - 1" ?bq] by (simp add: algebra_simps)
    also have "\<dots> \<le> of_int p" by (rule rp(1))
    finally show ?thesis using Q by (simp add: a pos_le_divide_eq)
  qed
  have hi: "a < pow2 (?d + 1)"
  proof -
    have "of_int p < pow2 ?bp" by (rule rp(2))
    also have "\<dots> = pow2 (?d + 1) * pow2 (?bq - 1)"
      using pow2_add [of "?d + 1" "?bq - 1"] by (simp add: algebra_simps)
    also have "\<dots> \<le> pow2 (?d + 1) * of_int q"
      using rq(1) pow2_pos [of "?d + 1"] by (simp add: mult_left_mono less_imp_le)
    finally show ?thesis using Q by (simp add: a pos_divide_less_eq)
  qed
  have fl: "floor_log2 a = (if pow2 ?d \<le> a then ?d else ?d - 1)"
    by (simp add: floor_log2_def pq Let_def)
  show ?thesis
  proof (cases "pow2 ?d \<le> a")
    case True
    then show ?thesis using hi fl by simp
  next
    case False
    then show ?thesis using lo fl by simp
  qed
qed

lemma round_half_even_error: "\<bar>of_int (round_half_even y) - y\<bar> \<le> 1 / 2"
proof -
  have "of_int \<lfloor>y\<rfloor> \<le> y" "y < of_int \<lfloor>y\<rfloor> + 1" by linarith+
  then show ?thesis
    by (auto simp: round_half_even_def Let_def abs_le_iff)
qed

lemma round_half_even_int: "round_half_even (of_int k) = k"
  by (simp add: round_half_even_def)

lemma floor_log2_normal:
  assumes "pow2 (- 126) \<le> a"
  shows "max (floor_log2 a) (- 126) = floor_log2 a"
proof -
  have a: "0 < a" using assms pow2_pos [of "- 126"] by linarith
  have "\<not> floor_log2 a < - 126"
  proof
    assume "floor_log2 a < - 126"
    then have "pow2 (floor_log2 a + 1) \<le> pow2 (- 126)" by (intro pow2_mono) simp
    with floor_log2_bounds [OF a] assms show False by linarith
  qed
  then show ?thesis by simp
qed

lemma round_to_float_error:
  assumes "pow2 (- 126) \<le> a"
  shows "\<bar>round_to_float a - a\<bar> \<le> a / 2 ^ 24"
proof -
  have a: "0 < a" using assms pow2_pos [of "- 126"] by linarith
  let ?e = "floor_log2 a"
  let ?u = "pow2 (?e - 23)"
  let ?r = "round_half_even (a / ?u)"
  have u: "0 < ?u" by (rule pow2_pos)
  have rt: "round_to_float a = of_int ?r * ?u"
    using a by (simp add: round_to_float_def Let_def floor_log2_normal [OF assms])
  have "\<bar>of_int ?r * ?u - a\<bar> = \<bar>of_int ?r - a / ?u\<bar> * ?u"
  proof -
    have "of_int ?r * ?u - a = (of_int ?r - a / ?u) * ?u"
      using u by (simp add: field_simps)
    then show ?thesis using u by (simp add: abs_mult)
  qed
  also have "\<dots> \<le> 1 / 2 * ?u"
    using round_half_even_error [of "a / ?u"] u by (intro mult_right_mono) simp_all
  also have "\<dots> = pow2 ?e / 2 ^ 24"
  proof -
    have "pow2 ?e = ?u * pow2 23" using pow2_add [of "?e - 23" 23] by simp
    moreover have "pow2 23 = 2 ^ 23" by (simp add: pow2_def)
    ultimately show ?thesis by simp
  qed
  also have "\<dots> \<le> a / 2 ^ 24"
    using floor_log2_bounds [OF a] by (simp add: divide_right_mono)
  finally show ?thesis by (simp add: rt)
qed

lemma round_to_float_int:
  assumes "0 < n" "n < 2 ^ 24"
  shows "round_to_float (of_int n) = of_int n"
proof -
  let ?a = "of_int n :: rat"
  have a: "0 < ?a" using assms by simp
  have one: "pow2 0 \<le> ?a" using assms by (simp add: pow2_def)
  have norm: "pow2 (- 126) \<le> ?a"
    using pow2_mono [of "- 126" 0] one by linarith
  let ?e = "floor_log2 ?a"
  have e0: "0 \<le> ?e"
  proof (rule ccontr)
    assume "\<not> 0 \<le> ?e"
    then have "pow2 (?e + 1) \<le> pow2 0" by (intro pow2_mono) simp
    with floor_log2_bounds [OF a] one show False by linarith
  qed
  have e23: "?e \<le> 23"
  proof (rule ccontr)
    assume "\<not> ?e \<le> 23"
    then have "pow2 24 \<le> pow2 ?e" by (intro pow2_mono) simp
    moreover have "?a < pow2 24"
    proof -
      have "?a < of_int (2 ^ 24)" using assms(2) by (simp only: of_int_less_iff)
      then show ?thesis by (simp add: pow2_def)
    qed
    ultimately show False using floor_log2_bounds [OF a] by linarith
  qed
  let ?k = "nat (23 - ?e)"
  have u: "pow2 (?e - 23) = 1 / 2 ^ ?k"
    using e23 by (auto simp: pow2_def)
  have "?a / pow2 (?e - 23) = of_int (n * 2 ^ ?k)"
    by (simp add: u)
  then have r: "round_half_even (?a / pow2 (?e - 23)) = n * 2 ^ ?k"
    by (simp only: round_half_even_int)
  have "round_to_float ?a = of_int (n * 2 ^ ?k) * pow2 (?e - 23)"
    using a by (simp add: round_to_float_def Let_def floor_log2_normal [OF norm] r del: of_int_mult)
  then show ?thesis by (simp add: u)
qed

lemma factor_value: "fdiv 1 255 = 8421505 / 2147483648"
  by code_simp

lemma float_of_uchar_exact: "float_of_uchar c = of_nat (unat c)"
proof -
  define n where "n = unat c"
  have "n < 2 ^ 8" using unsigned_less [of c, where ?'a = nat] by (simp add: n_def)
  then have small: "int n < 2 ^ 24" by simp
  have "round_to_float (of_nat n) = of_nat n"
  proof (cases "n = 0")
    case True
    then show ?thesis by (simp add: round_to_float_def)
  next
    case False
    then have "0 < int n" by simp
    then have "round_to_float (of_int (int n)) = of_int (int n)"
      using small by (rule round_to_float_int)
    then show ?thesis by simp
  qed
  then show ?thesis by (simp only: float_of_uchar_def n_def)
qed

lemma crease_sharpness_infinite: "crease_sharpness si 255 = si"
  by (simp add: crease_sharpness_def)

lemma crease_sharpness_tolerance:
  assumes "c \<noteq> 0" "c \<noteq> 255"
  shows "\<bar>crease_sharpness si c - of_nat (unat c) / 255\<bar> \<le> of_nat (unat c) / 255 / 2 ^ 23"
proof -
  let ?F = "8421505 / 2147483648 :: rat"
  define x :: rat where "x = of_nat (unat c)"
  have "0 < unat c" using assms(1) by (simp add: unat_gt_0)
  then have "1 \<le> unat c" by simp
  then have "(of_nat 1 :: rat) \<le> of_nat (unat c)" by (simp only: of_nat_le_iff)
  then have x1: "1 \<le> x" by (simp only: x_def of_nat_1)
  have "crease_sharpness si c = fmul (float_of_uchar c) (fdiv 1 255)"
    using assms(2) by (simp add: crease_sharpness_def Let_def)
  then have s: "crease_sharpness si c = round_to_float (x * ?F)"
    by (simp only: fmul_def float_of_uchar_exact factor_value x_def)
  have "pow2 (- 126) \<le> pow2 (- 9)" by (rule pow2_mono) simp
  also have "pow2 (- 9) \<le> 1 * ?F" by (simp add: pow2_def)
  also have "1 * ?F \<le> x * ?F" using x1 by (intro mult_right_mono) simp_all
  finally have norm: "pow2 (- 126) \<le> x * ?F" .
  have "\<bar>round_to_float (x * ?F) - x / 255\<bar>
      \<le> \<bar>round_to_float (x * ?F) - x * ?F\<bar> + \<bar>x * ?F - x / 255\<bar>"
    by linarith
  also have "\<dots> \<le> x * ?F / 2 ^ 24 + \<bar>x * ?F - x / 255\<bar>"
    using round_to_float_error [OF norm] by simp
  also have "\<bar>x * ?F - x / 255\<bar> = x * (?F - 1 / 255)"
  proof -
    have "x * ?F - x / 255 = x * (?F - 1 / 255)" by (simp add: algebra_simps)
    moreover have "0 \<le> x * (?F - 1 / 255)" using x1 by simp
    ultimately show ?thesis by simp
  qed
  also have "x * ?F / 2 ^ 24 + x * (?F - 1 / 255) = x * (?F / 2 ^ 24 + (?F - 1 / 255))"
    by (simp add: algebra_simps)
  also have "\<dots> \<le> x * (1 / 255 / 2 ^ 23)"
    using x1 by (intro mult_left_mono) simp_all
  also have "x * (1 / 255 / 2 ^ 23) = x / 255 / 2 ^ 23" by simp
  finally show ?thesis by (simp only: s x_def)
qed

lemma concat_map_if:
  "concat (map (\<lambda>e. if P e then [] else f e) es) = concat (map f (filter (\<lambda>e. \<not> P e) es))"
  by (induction es) simp_all

text \<open>
  Claim C4. \<^verbatim>\<open>get_creases\<close> goes through the edges in order. An edge of crease weight 0
  adds nothing to the three crease arrays; every other edge adds its two vertex references to
  \<open>crease_vertex_indices\<close>, one \<open>2\<close> to \<open>crease_lengths\<close> and its sharpness to
  \<open>crease_sharpnesses\<close>. The sharpness of weight 255 is the infinite-sharpness constant; the
  sharpness of a weight \<open>w\<close> strictly between 0 and 255, computed in binary32 as
  \<open>float(w) * (1.0f / 255.0f)\<close>, differs from \<open>w / 255\<close> by at most the fraction
  \<open>2 powi -23\<close> of it.
\<close>

theorem get_creases_per_edge:
  assumes "int (length (medge mesh)) = totedge mesh"
  shows "\<exists>d'. get_creases si mesh d = Some d' \<and>
     crease_vertex_indices d' = crease_vertex_indices d @
       concat (map (\<lambda>e. if crease e = 0 then [] else [int_of_uint (v1 e), int_of_uint (v2 e)])
                 (medge mesh)) \<and>
     crease_lengths d' = crease_lengths d @
       concat (map (\<lambda>e. if crease e = 0 then [] else [2]) (medge mesh)) \<and>
     crease_sharpnesses d' = crease_sharpnesses d @
       concat (map (\<lambda>e. if crease e = 0 then [] else [crease_sharpness si (crease e)]) (medge mesh)) \<and>
     crease_sharpness si 255 = si \<and>
     (\<forall>c. c \<noteq> 0 \<and> c \<noteq> 255 \<longrightarrow>
        \<bar>crease_sharpness si c - of_nat (unat c) / 255\<bar> \<le> of_nat (unat c) / 255 / 2 ^ 23)"
proof -
  have "concat (map (\<lambda>e. if crease e = 0 then [] else [f e]) es)
      = map f (filter (\<lambda>e. crease e \<noteq> 0) es)" for f :: "MEdge \<Rightarrow> 'x" and es
    by (induction es) simp_all
  then show ?thesis
    using get_creases_eq [OF assms, of si d] crease_sharpness_tolerance [of _ si]
    by (simp add: concat_map_if creased_edges_def crease_sharpness_infinite)
qed

theorem get_creases_per_edge_witness:
  "int (length (medge two_triangles)) = totedge two_triangles \<and>
   (\<exists>d' s. get_creases 10 two_triangles (empty_mesh_data :: rat USDMeshData) = Some d' \<and>
      crease_vertex_indices d' = [1, 2, 0, 2] \<and>
      crease_lengths d' = [2, 2] \<and>
      crease_sharpnesses d' = [10, s] \<and>
      (128 :: 8 word) \<noteq> 0 \<and> (128 :: 8 word) \<noteq> 255 \<and>
      \<bar>s - 128 / 255\<bar> \<le> 128 / 255 / 2 ^ 23)"
proof -
  have len: "int (length (medge two_triangles)) = totedge two_triangles"
    by (simp add: two_triangles_def)
  let ?d = "empty_mesh_data :: rat USDMeshData"
  from get_creases_per_edge [OF len, of 10 ?d] obtain d' where
    d: "get_creases 10 two_triangles ?d = Some d'"
       "crease_vertex_indices d' = crease_vertex_indices ?d @
          concat (map (\<lambda>e. if crease e = 0 then [] else [int_of_uint (v1 e), int_of_uint (v2 e)])
                 (medge two_triangles))"
       "crease_lengths d' = crease_lengths ?d @
          concat (map (\<lambda>e. if crease e = 0 then [] else [2]) (medge two_triangles))"
       "crease_sharpnesses d' = crease_sharpnesses ?d @
          concat (map (\<lambda>e. if crease e = 0 then [] else [crease_sharpness 10 (crease e)])
                 (medge two_triangles))"
       "crease_sharpness 10 255 = (10 :: rat)"
       "\<forall>c. c \<noteq> 0 \<and> c \<noteq> 255 \<longrightarrow>
          \<bar>crease_sharpness 10 c - of_nat (unat c) / 255\<bar> \<le> of_nat (unat c) / 255 / 2 ^ 23"
    by blast
  have ne: "(128 :: 8 word) \<noteq> 0 \<and> (128 :: 8 word) \<noteq> 255" by simp
  with d(6) have "\<bar>crease_sharpness 10 128 - of_nat (unat (128 :: 8 word)) / 255\<bar>
      \<le> of_nat (unat (128 :: 8 word)) / 255 / 2 ^ 23"
    by blast
  then have tol: "\<bar>crease_sharpness 10 128 - 128 / 255\<bar> \<le> 128 / 255 / 2 ^ 23" by simp
  have "crease_vertex_indices d' = [1, 2, 0, 2]"
    using d(2) by (simp add: two_triangles_def empty_mesh_data_def int_of_uint_def)
  moreover have "crease_lengths d' = [2, 2]"
    using d(3) by (simp add: two_triangles_def empty_mesh_data_def)
  moreover have "crease_sharpnesses d' = [10, crease_sharpness 10 128]"
    using d(4) d(5) by (simp add: two_triangles_def empty_mesh_data_def)
  ultimately show ?thesis using len d(1) ne tol by blast
qed


subsection \<open>Actions and their calls\<close>

lemma runs_ret: "runs P (ret x)"
  by (simp add: runs_def ret_def)

lemma runs_invoke: "P c \<Longrightarrow> runs P (invoke w c)"
  by (simp add: runs_def invoke_def split: option.split)

lemma runs_may_throw: "runs P (may_throw w c)"
  by (simp add: runs_def may_throw_def split: option.split)

lemma runs_then_do:
  assumes "runs P a" and "\<And>x. runs P (f x)"
  shows "runs P (then_do a f)"
  unfolding runs_def
proof
  fix tr
  from assms(1) obtain cs where a: "fst (a tr) \<noteq> Undefined" "snd (a tr) = tr @ cs" "list_all P cs"
    by (auto simp: runs_def)
  show "fst (then_do a f tr) \<noteq> Undefined \<and> (\<exists>cs. snd (then_do a f tr) = tr @ cs \<and> list_all P cs)"
  proof (cases "fst (a tr)")
    case (Returned x)
    then have at: "a tr = (Returned x, tr @ cs)" using a(2) by (simp add: prod_eq_iff)
    have "fst (f x (tr @ cs)) \<noteq> Undefined \<and>
        (\<exists>cs'. snd (f x (tr @ cs)) = (tr @ cs) @ cs' \<and> list_all P cs')"
      using assms(2) [of x] unfolding runs_def by blast
    then obtain cs' where
      "fst (f x (tr @ cs)) \<noteq> Undefined" "snd (f x (tr @ cs)) = tr @ cs @ cs'" "list_all P cs'"
      by auto
    then show ?thesis using a(3) by (auto simp: then_do_def at)
  next
    case (Thrown e)
    then have "a tr = (Thrown e, tr @ cs)" using a(2) by (simp add: prod_eq_iff)
    then show ?thesis using a(3) by (auto simp: then_do_def)
  next
    case Undefined
    then show ?thesis using a(1) by simp
  qed
qed

lemma runs_bind_first_material:
  assumes "\<And>m. P (Ensure_Usd_Material m)" "\<And>u. P (Bind_To_Mesh u)" "\<And>b. P (DoubleSided_Create b)"
  shows "runs P (bind_first_material w ob mat_num)"
proof (induction w ob mat_num rule: bind_first_material.induct)
  case (1 w ob mat_num)
  show ?case
  proof (cases "mat_num < ob_totcol ob")
    case False
    then show ?thesis by (simp add: bind_first_material.simps [of w ob mat_num] runs_ret)
  next
    case True
    show ?thesis
    proof (cases "give_current_material w ob (short_of_int (mat_num + 1))")
      case None
      then show ?thesis
        using True "1.IH" by (simp add: bind_first_material.simps [of w ob mat_num])
    next
      case (Some material)
      then show ?thesis
        using True assms
        by (simp add: bind_first_material.simps [of w ob mat_num] Let_def
            runs_then_do runs_invoke runs_ret)
    qed
  qed
qed

lemma runs_define_subsets:
  assumes "\<And>m. P (Ensure_Usd_Material m)" "\<And>n idx. P (MaterialBindSubset_Create n idx)"
    "\<And>u n. P (Bind_To_Subset u n)"
  shows "runs P (define_subsets w ob fg)"
proof (induction fg)
  case Nil
  then show ?case by (simp add: runs_ret)
next
  case (Cons g fg)
  obtain k idx where g: "g = (k, idx)" by (cases g)
  show ?case
    using Cons assms
    by (cases "give_current_material w ob (short_of_int (k + 1))")
       (simp_all add: g Let_def runs_then_do runs_invoke)
qed

lemma runs_assign_materials:
  assumes "\<And>m. P (Ensure_Usd_Material m)" "\<And>u. P (Bind_To_Mesh u)" "\<And>b. P (DoubleSided_Create b)"
    "\<And>n idx. P (MaterialBindSubset_Create n idx)" "\<And>u n. P (Bind_To_Subset u n)"
  shows "runs P (assign_materials w context fg)"
  unfolding assign_materials_def
  using assms
  by (auto intro!: runs_then_do runs_ret runs_invoke runs_bind_first_material runs_define_subsets)

lemma freed_append: "freed (xs @ ys) = freed xs @ freed ys"
  by (simp add: freed_def)

lemma freed_none: "list_all (\<lambda>c. freed [c] = []) cs \<Longrightarrow> freed cs = []"
  by (induction cs) (simp_all add: freed_def)

lemma runs_write_mesh:
  assumes "mesh_ok mesh"
  shows "runs (\<lambda>c. freed [c] = []) (write_mesh w context mesh)"
proof -
  note g = geometry_data_eq [OF assms, of "SHARPNESS_INFINITE w"]
  show ?thesis
    unfolding write_mesh_def Let_def g
    by (auto intro!: runs_then_do runs_ret runs_invoke runs_may_throw runs_assign_materials
        simp: freed_def)
qed

text \<open>
  Claim C1. Let \<^verbatim>\<open>get_export_mesh\<close> give a mesh and leave \<open>needsfree\<close> in the flag, the mesh
  being well formed. Whatever the collaborators do, the calls of \<^verbatim>\<open>do_write\<close> are the calls
  of \<^verbatim>\<open>write_mesh\<close>, none of which frees a mesh, followed by one \<^verbatim>\<open>free_export_mesh\<close> of
  that mesh when \<open>needsfree\<close> is true and by nothing when it is false; and \<^verbatim>\<open>do_write\<close>
  ends as \<^verbatim>\<open>write_mesh\<close> does, returning or throwing the same exception.
\<close>

theorem do_write_frees_temporary_mesh_once:
  assumes "get_export_mesh w (object context) False = (Some mesh, needsfree)"
    and "mesh_ok mesh"
  shows "\<exists>cs. snd (write_mesh w context mesh tr) = tr @ cs \<and> freed cs = [] \<and>
      snd (do_write w context tr) = tr @ cs @ (if needsfree then [Free_Export_Mesh mesh] else []) \<and>
      freed (cs @ (if needsfree then [Free_Export_Mesh mesh] else [])) =
        (if needsfree then [mesh] else []) \<and>
      fst (do_write w context tr) = fst (write_mesh w context mesh tr)"
proof -
  from runs_write_mesh [OF assms(2), of w "context"] obtain cs where
    wm: "fst (write_mesh w context mesh tr) \<noteq> Undefined"
        "snd (write_mesh w context mesh tr) = tr @ cs"
        "list_all (\<lambda>c. freed [c] = []) cs"
    unfolding runs_def by blast
  have nofree: "freed cs = []" using wm(3) by (rule freed_none)
  have dw: "do_write w context =
      try_catch_rethrow
        (then_do (write_mesh w context mesh) (\<lambda>_.
           if needsfree then free_export_mesh mesh else ret ()))
        (if needsfree then free_export_mesh mesh else ret ())"
    using assms(1) by (simp add: do_write_def Let_def)
  have "snd (do_write w context tr) = tr @ cs @ (if needsfree then [Free_Export_Mesh mesh] else []) \<and>
      fst (do_write w context tr) = fst (write_mesh w context mesh tr)"
  proof (cases "fst (write_mesh w context mesh tr)")
    case (Returned u)
    then have "write_mesh w context mesh tr = (Returned u, tr @ cs)"
      using wm(2) by (simp add: prod_eq_iff)
    then show ?thesis
      by (simp add: dw try_catch_rethrow_def then_do_def free_export_mesh_def ret_def)
  next
    case (Thrown e)
    then have "write_mesh w context mesh tr = (Thrown e, tr @ cs)"
      using wm(2) by (simp add: prod_eq_iff)
    then show ?thesis
      by (simp add: dw try_catch_rethrow_def then_do_def free_export_mesh_def ret_def throw_def)
  next
    case Undefined
    then show ?thesis using wm(1) by simp
  qed
  moreover have "freed (cs @ (if needsfree then [Free_Export_Mesh mesh] else [])) =
        (if needsfree then [mesh] else [])"
    using nofree by (simp add: freed_append) (simp add: freed_def)
  ultimately show ?thesis using wm(2) nofree by blast
qed

lemma invoke_ok: "raises w = (\<lambda>tr c. None) \<Longrightarrow> invoke w c tr = (Returned (), tr @ [c])"
  by (simp add: invoke_def)

lemma may_throw_ok: "raises w = (\<lambda>tr c. None) \<Longrightarrow> may_throw w c tr = (Returned (), tr)"
  by (simp add: may_throw_def)

lemma short_of_int_id: "- 32768 \<le> x \<Longrightarrow> x \<le> 32767 \<Longrightarrow> short_of_int x = x"
  by (simp add: short_of_int_def)

lemma bind_first_material_found:
  assumes "raises w = (\<lambda>tr c. None)" and "ob_totcol ob \<le> 32767"
    and "0 \<le> i" "i \<le> k" "k < ob_totcol ob"
    and "give_current_material w ob (k + 1) = Some m"
    and "\<And>j. i \<le> j \<Longrightarrow> j < k \<Longrightarrow> give_current_material w ob (j + 1) = None"
  shows "bind_first_material w ob i tr =
     (Returned True, tr @ [Ensure_Usd_Material m, Bind_To_Mesh (ensure_usd_material w m),
        DoubleSided_Create ((blend_flag m AND MA_BL_CULL_BACKFACE w) = 0)])"
  using assms
proof (induction w ob i arbitrary: tr rule: bind_first_material.induct)
  case (1 w ob i)
  have lt: "i < ob_totcol ob" using "1.prems" by simp
  have sh: "short_of_int (i + 1) = i + 1"
    using "1.prems" by (intro short_of_int_id) simp_all
  show ?case
  proof (cases "i = k")
    case True
    then show ?thesis
      using lt sh "1.prems"(1,6)
      by (simp add: bind_first_material.simps [of w ob k] Let_def then_do_def invoke_ok ret_def)
  next
    case False
    then have none: "give_current_material w ob (i + 1) = None"
      using "1.prems" by simp
    have "bind_first_material w ob (i + 1) tr =
       (Returned True, tr @ [Ensure_Usd_Material m, Bind_To_Mesh (ensure_usd_material w m),
        DoubleSided_Create ((blend_flag m AND MA_BL_CULL_BACKFACE w) = 0)])"
      using "1.IH" [OF lt] none sh False "1.prems" by simp
    then show ?thesis
      using lt sh none by (simp add: bind_first_material.simps [of w ob i])
  qed
qed

lemma bind_first_material_none:
  assumes "ob_totcol ob \<le> 32767" and "0 \<le> i"
    and "\<And>j. i \<le> j \<Longrightarrow> j < ob_totcol ob \<Longrightarrow> give_current_material w ob (j + 1) = None"
  shows "bind_first_material w ob i tr = (Returned False, tr)"
  using assms
proof (induction w ob i arbitrary: tr rule: bind_first_material.induct)
  case (1 w ob i)
  show ?case
  proof (cases "i < ob_totcol ob")
    case False
    then show ?thesis by (simp add: bind_first_material.simps [of w ob i] ret_def)
  next
    case True
    have sh: "short_of_int (i + 1) = i + 1"
      using "1.prems" True by (intro short_of_int_id) simp_all
    have none: "give_current_material w ob (i + 1) = None"
      using "1.prems" True by simp
    have "bind_first_material w ob (i + 1) tr = (Returned False, tr)"
      using "1.IH" [OF True] none sh "1.prems" by simp
    then show ?thesis
      using True sh none by (simp add: bind_first_material.simps [of w ob i])
  qed
qed

lemma bind_first_material_cases:
  assumes "raises w = (\<lambda>tr c. None)"
  shows "bind_first_material w ob i tr = (Returned False, tr) \<or>
     (\<exists>m. bind_first_material w ob i tr =
        (Returned True, tr @ [Ensure_Usd_Material m, Bind_To_Mesh (ensure_usd_material w m),
           DoubleSided_Create ((blend_flag m AND MA_BL_CULL_BACKFACE w) = 0)]))"
  using assms
proof (induction w ob i arbitrary: tr rule: bind_first_material.induct)
  case (1 w ob i)
  show ?case
  proof (cases "i < ob_totcol ob")
    case False
    then show ?thesis by (simp add: bind_first_material.simps [of w ob i] ret_def)
  next
    case True
    show ?thesis
    proof (cases "give_current_material w ob (short_of_int (i + 1))")
      case None
      then show ?thesis
        using True "1.IH" [OF True None "1.prems"]
        by (simp add: bind_first_material.simps [of w ob i])
    next
      case (Some m)
      then show ?thesis
        using True "1.prems"
        by (simp add: bind_first_material.simps [of w ob i] Let_def then_do_def invoke_ok ret_def)
    qed
  qed
qed

lemma define_subsets_ok:
  assumes "raises w = (\<lambda>tr c. None)"
  shows "define_subsets w ob fg tr = (Returned (), tr @ concat (map (subset_calls_of w ob) fg))"
proof (induction fg arbitrary: tr)
  case Nil
  then show ?case by (simp add: ret_def)
next
  case (Cons g fg)
  obtain k idx where g: "g = (k, idx)" by (cases g)
  show ?case
    using Cons assms
    by (cases "give_current_material w ob (short_of_int (k + 1))")
       (simp_all add: g subset_calls_of_def Let_def then_do_def invoke_ok)
qed

lemma mesh_bindings_append: "mesh_bindings (xs @ ys) = mesh_bindings xs @ mesh_bindings ys"
  by (simp add: mesh_bindings_def)

lemma double_sided_flags_append:
  "double_sided_flags (xs @ ys) = double_sided_flags xs @ double_sided_flags ys"
  by (simp add: double_sided_flags_def)

lemma subset_calls_append: "subset_calls (xs @ ys) = subset_calls xs @ subset_calls ys"
  by (simp add: subset_calls_def)

lemma subset_calls_of_one:
  "mesh_bindings (subset_calls_of w ob g) = []"
  "double_sided_flags (subset_calls_of w ob g) = []"
  by (cases "give_current_material w ob (short_of_int (fst g + 1))";
      simp add: mesh_bindings_def double_sided_flags_def subset_calls_of_def)+

lemma subset_calls_of_no_mesh_binding:
  "mesh_bindings (concat (map (subset_calls_of w ob) fg)) = []"
  "double_sided_flags (concat (map (subset_calls_of w ob) fg)) = []"
  by (induction fg)
     (simp_all add: mesh_bindings_append double_sided_flags_append subset_calls_of_one,
      simp_all add: mesh_bindings_def double_sided_flags_def)

lemma subset_calls_of_subsets:
  "subset_calls (concat (map (subset_calls_of w ob) fg)) =
     concat (map (\<lambda>(k, idx). case give_current_material w ob (short_of_int (k + 1)) of
                    None \<Rightarrow> []
                  | Some m \<Rightarrow>
                      [MaterialBindSubset_Create (name_token (ensure_usd_material w m)) idx,
                       Bind_To_Subset (ensure_usd_material w m)
                         (name_token (ensure_usd_material w m))]) fg)"
proof (induction fg)
  case Nil
  then show ?case by (simp add: subset_calls_def)
next
  case (Cons g fg)
  obtain k idx where g: "g = (k, idx)" by (cases g)
  have "subset_calls (subset_calls_of w ob (k, idx)) =
      (case give_current_material w ob (short_of_int (k + 1)) of
         None \<Rightarrow> []
       | Some m \<Rightarrow>
           [MaterialBindSubset_Create (name_token (ensure_usd_material w m)) idx,
            Bind_To_Subset (ensure_usd_material w m) (name_token (ensure_usd_material w m))])"
    by (simp add: subset_calls_def subset_calls_of_def split: option.split)
  then show ?case using Cons by (simp add: g subset_calls_append)
qed

lemma assign_materials_bound:
  assumes "raises w = (\<lambda>tr c. None)" and "ob_totcol (object context) \<noteq> 0"
    and "bind_first_material w (object context) 0 tr = (Returned True, tr @ cs)"
  shows "assign_materials w context fg tr =
     (Returned (), tr @ cs @
        (if 2 \<le> length fg then concat (map (subset_calls_of w (object context)) fg) else []))"
  using assms
  by (simp add: assign_materials_def then_do_def ret_def define_subsets_ok)

lemma assign_materials_unbound:
  assumes "raises w = (\<lambda>tr c. None)" and "ob_totcol (object context) \<noteq> 0"
    and "bind_first_material w (object context) 0 tr = (Returned False, tr)"
  shows "assign_materials w context fg tr = (Returned (), tr @ [DoubleSided_Create True])"
  using assms
  by (simp add: assign_materials_def then_do_def ret_def invoke_ok)

text \<open>
  Claim C6. None of the collaborators throwing, and the object having at most 32767 slots:
  with no slot \<^verbatim>\<open>assign_materials\<close> makes no call; when slot \<open>k\<close> holds a material and the
  slots before it are empty, its calls begin with resolving that material, binding it to
  the mesh and creating the double-sided attribute with the value "the material has no
  backface-culling flag", and no later call binds to the mesh or creates that attribute;
  with at least one slot and all slots empty, the only call creates the double-sided
  attribute with \<open>True\<close>.
\<close>

theorem assign_materials_whole_mesh_binding:
  assumes "raises w = (\<lambda>tr c. None)" and "ob_totcol (object context) \<le> 32767"
  shows "(ob_totcol (object context) = 0 \<longrightarrow> assign_materials w context fg tr = (Returned (), tr)) \<and>
   (\<forall>k m. 0 \<le> k \<and> k < ob_totcol (object context) \<and>
      give_current_material w (object context) (k + 1) = Some m \<and>
      (\<forall>j. 0 \<le> j \<and> j < k \<longrightarrow> give_current_material w (object context) (j + 1) = None) \<longrightarrow>
      (\<exists>rest. assign_materials w context fg tr =
         (Returned (), tr @ [Ensure_Usd_Material m, Bind_To_Mesh (ensure_usd_material w m),
            DoubleSided_Create ((blend_flag m AND MA_BL_CULL_BACKFACE w) = 0)] @ rest) \<and>
         mesh_bindings rest = [] \<and> double_sided_flags rest = [])) \<and>
   (0 < ob_totcol (object context) \<and>
      (\<forall>j. 0 \<le> j \<and> j < ob_totcol (object context) \<longrightarrow>
         give_current_material w (object context) (j + 1) = None) \<longrightarrow>
      assign_materials w context fg tr = (Returned (), tr @ [DoubleSided_Create True]))"
proof (intro conjI allI impI)
  assume "ob_totcol (object context) = 0"
  then show "assign_materials w context fg tr = (Returned (), tr)"
    by (simp add: assign_materials_def ret_def)
next
  fix k m
  assume h: "0 \<le> k \<and> k < ob_totcol (object context) \<and>
      give_current_material w (object context) (k + 1) = Some m \<and>
      (\<forall>j. 0 \<le> j \<and> j < k \<longrightarrow> give_current_material w (object context) (j + 1) = None)"
  let ?cs = "[Ensure_Usd_Material m, Bind_To_Mesh (ensure_usd_material w m),
            DoubleSided_Create ((blend_flag m AND MA_BL_CULL_BACKFACE w) = 0)]"
  have "bind_first_material w (object context) 0 tr = (Returned True, tr @ ?cs)"
    using assms h by (intro bind_first_material_found [where k = k]) simp_all
  moreover have "ob_totcol (object context) \<noteq> 0" using h by auto
  ultimately have "assign_materials w context fg tr =
     (Returned (), tr @ ?cs @
        (if 2 \<le> length fg then concat (map (subset_calls_of w (object context)) fg) else []))"
    using assms(1) by (intro assign_materials_bound) simp_all
  then show "\<exists>rest. assign_materials w context fg tr = (Returned (), tr @ ?cs @ rest) \<and>
         mesh_bindings rest = [] \<and> double_sided_flags rest = []"
    using subset_calls_of_no_mesh_binding [of w "object context" fg]
    by (cases "2 \<le> length fg") (auto simp: mesh_bindings_def double_sided_flags_def)
next
  assume h: "0 < ob_totcol (object context) \<and>
      (\<forall>j. 0 \<le> j \<and> j < ob_totcol (object context) \<longrightarrow>
         give_current_material w (object context) (j + 1) = None)"
  have "bind_first_material w (object context) 0 tr = (Returned False, tr)"
    using assms(2) h by (intro bind_first_material_none) simp_all
  then show "assign_materials w context fg tr = (Returned (), tr @ [DoubleSided_Create True])"
    using assms(1) h by (intro assign_materials_unbound) simp_all
qed

lemma assign_materials_cases:
  assumes "raises w = (\<lambda>tr c. None)"
  shows "ob_totcol (object context) = 0 \<and> assign_materials w context fg tr = (Returned (), tr @ []) \<or>
     ob_totcol (object context) \<noteq> 0 \<and>
       assign_materials w context fg tr = (Returned (), tr @ [DoubleSided_Create True]) \<or>
     ob_totcol (object context) \<noteq> 0 \<and>
       (\<exists>m. assign_materials w context fg tr =
          (Returned (), tr @ [Ensure_Usd_Material m, Bind_To_Mesh (ensure_usd_material w m),
             DoubleSided_Create ((blend_flag m AND MA_BL_CULL_BACKFACE w) = 0)] @
           (if 2 \<le> length fg then concat (map (subset_calls_of w (object context)) fg) else [])))"
proof (cases "ob_totcol (object context) = 0")
  case True
  then show ?thesis by (simp add: assign_materials_def ret_def)
next
  case False
  from bind_first_material_cases [OF assms, of "object context" 0 tr]
  show ?thesis
  proof
    assume "bind_first_material w (object context) 0 tr = (Returned False, tr)"
    then have "assign_materials w context fg tr = (Returned (), tr @ [DoubleSided_Create True])"
      using assms False by (intro assign_materials_unbound) simp_all
    then show ?thesis using False by simp
  next
    assume "\<exists>m. bind_first_material w (object context) 0 tr =
        (Returned True, tr @ [Ensure_Usd_Material m, Bind_To_Mesh (ensure_usd_material w m),
           DoubleSided_Create ((blend_flag m AND MA_BL_CULL_BACKFACE w) = 0)])"
    then obtain m where "bind_first_material w (object context) 0 tr =
        (Returned True, tr @ [Ensure_Usd_Material m, Bind_To_Mesh (ensure_usd_material w m),
           DoubleSided_Create ((blend_flag m AND MA_BL_CULL_BACKFACE w) = 0)])" ..
    then have "assign_materials w context fg tr =
       (Returned (), tr @ [Ensure_Usd_Material m, Bind_To_Mesh (ensure_usd_material w m),
           DoubleSided_Create ((blend_flag m AND MA_BL_CULL_BACKFACE w) = 0)] @
        (if 2 \<le> length fg then concat (map (subset_calls_of w (object context)) fg) else []))"
      using assms False by (intro assign_materials_bound) simp_all
    then show ?thesis using False by blast
  qed
qed

text \<open>
  Claim C7, amended. None of the collaborators throwing: the calls of \<^verbatim>\<open>assign_materials\<close>
  that create a subset or bind to one are, when a material was bound to the whole mesh and
  there are at least two face groups, for each face group in order whose slot holds a
  material, one creation of a subset named after that material on the group's polygon
  indices and one binding of that material to it, a group on an empty slot giving nothing;
  otherwise there is no such call.
\<close>

theorem assign_materials_subsets:
  assumes "raises w = (\<lambda>tr c. None)" and "ob_totcol (object context) \<le> 32767"
  shows "\<exists>cs. assign_materials w context fg tr = (Returned (), tr @ cs) \<and>
     subset_calls cs =
       (if mesh_bindings cs \<noteq> [] \<and> 2 \<le> length fg
        then concat (map (\<lambda>(k, idx).
               case give_current_material w (object context) (short_of_int (k + 1)) of
                 None \<Rightarrow> []
               | Some m \<Rightarrow>
                   [MaterialBindSubset_Create (name_token (ensure_usd_material w m)) idx,
                    Bind_To_Subset (ensure_usd_material w m)
                      (name_token (ensure_usd_material w m))]) fg)
        else [])"
proof -
  let ?S = "concat (map (subset_calls_of w (object context)) fg)"
  consider
    (zero) "assign_materials w context fg tr = (Returned (), tr @ [])"
  | (unbound) "assign_materials w context fg tr = (Returned (), tr @ [DoubleSided_Create True])"
  | (bound) m where "assign_materials w context fg tr =
          (Returned (), tr @ [Ensure_Usd_Material m, Bind_To_Mesh (ensure_usd_material w m),
             DoubleSided_Create ((blend_flag m AND MA_BL_CULL_BACKFACE w) = 0)] @
           (if 2 \<le> length fg then ?S else []))"
    using assign_materials_cases [OF assms(1), of "context" fg tr] by blast
  then show ?thesis
  proof cases
    case zero
    then show ?thesis
      by (intro exI [of _ "[]"]) (simp add: subset_calls_def mesh_bindings_def)
  next
    case unbound
    then show ?thesis
      by (intro exI [of _ "[DoubleSided_Create True]"]) (simp add: subset_calls_def mesh_bindings_def)
  next
    case bound
    let ?H = "[Ensure_Usd_Material m, Bind_To_Mesh (ensure_usd_material w m),
             DoubleSided_Create ((blend_flag m AND MA_BL_CULL_BACKFACE w) = 0)]"
    have sub: "subset_calls (?H @ xs) = subset_calls xs"
      and mb: "mesh_bindings (?H @ xs) \<noteq> []" for xs
      by (simp_all add: subset_calls_def mesh_bindings_def)
    show ?thesis
    proof (cases "2 \<le> length fg")
      case True
      then show ?thesis
        using bound sub [of ?S] mb [of ?S] subset_calls_of_subsets [of w "object context" fg]
        by (intro exI [of _ "?H @ ?S"]) simp
    next
      case False
      then show ?thesis
        using bound sub [of "[]"]
        by (intro exI [of _ ?H]) (simp add: subset_calls_def)
    qed
  qed
qed

lemma write_mesh_ok:
  assumes "raises w = (\<lambda>tr c. None)"
    and "get_geometry_data (SHARPNESS_INFINITE w) mesh empty_mesh_data = Some d"
  shows "write_mesh w context mesh tr =
     (let G = [UsdGeomMesh_Define,
               Points_Set (points d) (get_export_time_code w),
               FaceVertexCounts_Set (face_vertex_counts d) (get_export_time_code w),
               FaceVertexIndices_Set (face_indices d) (get_export_time_code w)] @
              (if crease_lengths d \<noteq> []
               then [CreaseLengths_Set (crease_lengths d) (get_export_time_code w),
                     CreaseIndices_Set (crease_vertex_indices d) (get_export_time_code w),
                     CreaseSharpnesses_Set (crease_sharpnesses d) (get_export_time_code w)]
               else [])
      in if frame_has_been_written w then (Returned (), tr @ G)
         else assign_materials w context (face_groups d) (tr @ G))"
  using assms
  by (simp add: write_mesh_def Let_def then_do_def invoke_ok may_throw_ok ret_def)

text \<open>
  Claim C8. With \<^verbatim>\<open>frame_has_been_written_\<close> set and the extraction giving \<open>d\<close>: when no
  collaborator throws, \<^verbatim>\<open>write_mesh\<close> returns after defining the mesh and setting points,
  face vertex counts and face vertex indices of \<open>d\<close> at the export time code, and the three
  crease arrays when \<open>crease_lengths\<close> is not empty; and whatever the collaborators do, it
  resolves no material, binds none to the mesh, creates no double-sided attribute and makes
  no subset call.
\<close>

theorem write_mesh_after_first_sample:
  assumes "frame_has_been_written w"
    and "get_geometry_data (SHARPNESS_INFINITE w) mesh empty_mesh_data = Some d"
  shows "(raises w = (\<lambda>tr c. None) \<longrightarrow>
      write_mesh w context mesh tr =
        (Returned (),
         tr @ [UsdGeomMesh_Define,
               Points_Set (points d) (get_export_time_code w),
               FaceVertexCounts_Set (face_vertex_counts d) (get_export_time_code w),
               FaceVertexIndices_Set (face_indices d) (get_export_time_code w)] @
              (if crease_lengths d \<noteq> []
               then [CreaseLengths_Set (crease_lengths d) (get_export_time_code w),
                     CreaseIndices_Set (crease_vertex_indices d) (get_export_time_code w),
                     CreaseSharpnesses_Set (crease_sharpnesses d) (get_export_time_code w)]
               else []))) \<and>
    (\<exists>cs. snd (write_mesh w context mesh tr) = tr @ cs \<and>
       mesh_bindings cs = [] \<and> double_sided_flags cs = [] \<and> subset_calls cs = [] \<and>
       (\<forall>m. Ensure_Usd_Material m \<notin> set cs))"
proof
  show "raises w = (\<lambda>tr c. None) \<longrightarrow>
      write_mesh w context mesh tr =
        (Returned (),
         tr @ [UsdGeomMesh_Define,
               Points_Set (points d) (get_export_time_code w),
               FaceVertexCounts_Set (face_vertex_counts d) (get_export_time_code w),
               FaceVertexIndices_Set (face_indices d) (get_export_time_code w)] @
              (if crease_lengths d \<noteq> []
               then [CreaseLengths_Set (crease_lengths d) (get_export_time_code w),
                     CreaseIndices_Set (crease_vertex_indices d) (get_export_time_code w),
                     CreaseSharpnesses_Set (crease_sharpnesses d) (get_export_time_code w)]
               else []))"
    using assms by (simp add: write_mesh_ok Let_def)
next
  let ?P = "\<lambda>c :: 'a call. mesh_bindings [c] = [] \<and> double_sided_flags [c] = [] \<and>
      subset_calls [c] = [] \<and> (\<forall>m. c \<noteq> Ensure_Usd_Material m)"
  have "runs ?P (write_mesh w context mesh)"
    unfolding write_mesh_def Let_def assms(2)
    using assms(1)
    by (auto intro!: runs_then_do runs_ret runs_invoke runs_may_throw
        simp: mesh_bindings_def double_sided_flags_def subset_calls_def)
  then obtain cs where cs: "snd (write_mesh w context mesh tr) = tr @ cs" "list_all ?P cs"
    unfolding runs_def by blast
  have "mesh_bindings cs = [] \<and> double_sided_flags cs = [] \<and> subset_calls cs = [] \<and>
       (\<forall>m. Ensure_Usd_Material m \<notin> set cs)"
    using cs(2)
  proof (induction cs)
    case Nil
    then show ?case by (simp add: mesh_bindings_def double_sided_flags_def subset_calls_def)
  next
    case (Cons c cs)
    then show ?case
      using mesh_bindings_append [of "[c]" cs] double_sided_flags_append [of "[c]" cs]
        subset_calls_append [of "[c]" cs]
      by auto
  qed
  then show "\<exists>cs. snd (write_mesh w context mesh tr) = tr @ cs \<and>
       mesh_bindings cs = [] \<and> double_sided_flags cs = [] \<and> subset_calls cs = [] \<and>
       (\<forall>m. Ensure_Usd_Material m \<notin> set cs)"
    using cs(1) by blast
qed

text \<open>
  Claim C9, amended. None of the collaborators throwing, \<^verbatim>\<open>write_mesh\<close> returns and creates
  the double-sided attribute once when no earlier time sample was written and the object has
  a material slot, and not at all when an earlier sample was written or the object has no
  slot.
\<close>

theorem write_mesh_double_sided:
  assumes "raises w = (\<lambda>tr c. None)" and "ob_totcol (object context) \<le> 32767"
    and "get_geometry_data (SHARPNESS_INFINITE w) mesh empty_mesh_data = Some d"
  shows "\<exists>cs. write_mesh w context mesh tr = (Returned (), tr @ cs) \<and>
     length (double_sided_flags cs) =
       (if frame_has_been_written w \<or> ob_totcol (object context) = 0 then 0 else 1)"
proof -
  let ?G = "[UsdGeomMesh_Define,
               Points_Set (points d) (get_export_time_code w),
               FaceVertexCounts_Set (face_vertex_counts d) (get_export_time_code w),
               FaceVertexIndices_Set (face_indices d) (get_export_time_code w)] @
              (if crease_lengths d \<noteq> []
               then [CreaseLengths_Set (crease_lengths d) (get_export_time_code w),
                     CreaseIndices_Set (crease_vertex_indices d) (get_export_time_code w),
                     CreaseSharpnesses_Set (crease_sharpnesses d) (get_export_time_code w)]
               else [])"
  let ?S = "concat (map (subset_calls_of w (object context)) (face_groups d))"
  have G: "double_sided_flags ?G = []"
    by (cases "crease_lengths d = []") (simp_all add: double_sided_flags_def)
  have wm: "write_mesh w context mesh tr =
      (if frame_has_been_written w then (Returned (), tr @ ?G)
       else assign_materials w context (face_groups d) (tr @ ?G))"
    using write_mesh_ok [OF assms(1,3), of "context" tr] by (simp add: Let_def)
  show ?thesis
  proof (cases "frame_has_been_written w")
    case True
    then show ?thesis using wm G by (intro exI [of _ ?G]) simp
  next
    case False
    consider
      (zero) "ob_totcol (object context) = 0"
        "assign_materials w context (face_groups d) (tr @ ?G) = (Returned (), (tr @ ?G) @ [])"
    | (unbound) "ob_totcol (object context) \<noteq> 0"
        "assign_materials w context (face_groups d) (tr @ ?G) =
           (Returned (), (tr @ ?G) @ [DoubleSided_Create True])"
    | (bound) m where "ob_totcol (object context) \<noteq> 0"
        "assign_materials w context (face_groups d) (tr @ ?G) =
          (Returned (), (tr @ ?G) @ [Ensure_Usd_Material m, Bind_To_Mesh (ensure_usd_material w m),
             DoubleSided_Create ((blend_flag m AND MA_BL_CULL_BACKFACE w) = 0)] @
           (if 2 \<le> length (face_groups d) then ?S else []))"
      using assign_materials_cases [OF assms(1), of "context" "face_groups d" "tr @ ?G"] by blast
    then show ?thesis
    proof cases
      case zero
      then show ?thesis using wm False G by (intro exI [of _ ?G]) simp
    next
      case unbound
      then show ?thesis
        using wm False G
        by (intro exI [of _ "?G @ [DoubleSided_Create True]"])
           (simp add: double_sided_flags_append, simp add: double_sided_flags_def)
    next
      case bound
      let ?H = "[Ensure_Usd_Material m, Bind_To_Mesh (ensure_usd_material w m),
             DoubleSided_Create ((blend_flag m AND MA_BL_CULL_BACKFACE w) = 0)]"
      let ?R = "if 2 \<le> length (face_groups d) then ?S else []"
      have H: "length (double_sided_flags ?H) = 1" by (simp add: double_sided_flags_def)
      have "double_sided_flags ([] :: 'a call list) = []" by (simp add: double_sided_flags_def)
      then have R: "double_sided_flags ?R = []"
        using subset_calls_of_no_mesh_binding(2) [of w "object context" "face_groups d"]
        by (cases "2 \<le> length (face_groups d)") (simp_all only: if_True if_False)
      have "length (double_sided_flags (?G @ ?H @ ?R)) = 1"
        using G H R by (simp only: double_sided_flags_append) simp
      then show ?thesis
        using wm False bound by (intro exI [of _ "?G @ ?H @ ?R"]) simp
    qed
  qed
qed

subsection \<open>The example runs\<close>

lemma no_faults:
  "raises first_sample_writer = (\<lambda>tr c. None)"
  "raises later_sample_writer = (\<lambda>tr c. None)"
  "raises mesh_writer = (\<lambda>tr c. None)"
  by (simp_all add: first_sample_writer_def later_sample_writer_def mesh_writer_def)

lemma ex_two_slots:
  "assign_materials first_sample_writer two_slots [(0, [1]), (1, [0])] [] =
     (Returned (),
      [Ensure_Usd_Material glass, Bind_To_Mesh \<lparr>name_token = ''Glass''\<rparr>, DoubleSided_Create False,
       Ensure_Usd_Material glass, MaterialBindSubset_Create ''Glass'' [0],
       Bind_To_Subset \<lparr>name_token = ''Glass''\<rparr> ''Glass''])"
  by (simp add: assign_materials_def bind_first_material.simps then_do_def invoke_def ret_def
      first_sample_writer_def two_slots_def glass_def short_of_int_def Let_def)

lemma ex_three_slots:
  "assign_materials first_sample_writer three_slots [(1, [0]), (2, [1])] [] =
     (Returned (),
      [Ensure_Usd_Material red, Bind_To_Mesh \<lparr>name_token = ''Red''\<rparr>, DoubleSided_Create True])"
  by (simp add: assign_materials_def bind_first_material.simps then_do_def invoke_def ret_def
      first_sample_writer_def three_slots_def red_def short_of_int_def Let_def)

lemma write_mesh_returns:
  assumes "raises w = (\<lambda>tr c. None)"
    and "get_geometry_data (SHARPNESS_INFINITE w) mesh empty_mesh_data = Some d"
  shows "fst (write_mesh w context mesh tr) = Returned ()"
proof (cases "frame_has_been_written w")
  case True
  then show ?thesis using write_mesh_ok [OF assms, of "context" tr] by (simp add: Let_def)
next
  case False
  then have "\<exists>tr'. write_mesh w context mesh tr = assign_materials w context (face_groups d) tr'"
    using write_mesh_ok [OF assms, of "context" tr] by (auto simp: Let_def)
  then obtain tr' where "write_mesh w context mesh tr = assign_materials w context (face_groups d) tr'" ..
  then show ?thesis
    using assign_materials_cases [OF assms(1), of "context" "face_groups d" tr'] by auto
qed

theorem do_write_frees_temporary_mesh_once_witness:
  "get_export_mesh failing_writer (object three_slots) False = (Some two_triangles, True) \<and>
   mesh_ok two_triangles \<and>
   fst (do_write failing_writer three_slots []) = Thrown ''write failed'' \<and>
   freed (snd (do_write failing_writer three_slots [])) = [two_triangles] \<and>
   get_export_mesh first_sample_writer (object three_slots) False = (Some two_triangles, True) \<and>
   fst (do_write first_sample_writer three_slots []) = Returned () \<and>
   freed (snd (do_write first_sample_writer three_slots [])) = [two_triangles] \<and>
   get_export_mesh mesh_writer (object three_slots) False = (Some two_triangles, False) \<and>
   fst (do_write mesh_writer three_slots []) = Returned () \<and>
   freed (snd (do_write mesh_writer three_slots [])) = []"
proof -
  have g1: "get_export_mesh failing_writer (object three_slots) False = (Some two_triangles, True)"
    and g2: "get_export_mesh first_sample_writer (object three_slots) False = (Some two_triangles, True)"
    and g3: "get_export_mesh mesh_writer (object three_slots) False = (Some two_triangles, False)"
    by (simp_all add: failing_writer_def first_sample_writer_def mesh_writer_def three_slots_def
        USDMeshWriter_get_export_mesh_def)
  have si: "SHARPNESS_INFINITE failing_writer = 10" "SHARPNESS_INFINITE first_sample_writer = 10"
    "SHARPNESS_INFINITE mesh_writer = 10"
    by (simp_all add: failing_writer_def first_sample_writer_def mesh_writer_def)
  have w1: "fst (write_mesh failing_writer three_slots two_triangles []) = Thrown ''write failed''"
    unfolding write_mesh_def Let_def si two_triangles_data
    by (simp add: then_do_def invoke_def may_throw_def failing_writer_def first_sample_writer_def)
  have w2: "fst (write_mesh first_sample_writer three_slots two_triangles []) = Returned ()"
    by (rule write_mesh_returns [OF no_faults(1)]) (simp add: si two_triangles_data)
  have w3: "fst (write_mesh mesh_writer three_slots two_triangles []) = Returned ()"
    by (rule write_mesh_returns [OF no_faults(3)]) (simp add: si two_triangles_data)
  from do_write_frees_temporary_mesh_once [OF g1 two_triangles_ok, of "[]"] w1
  have r1: "fst (do_write failing_writer three_slots []) = Thrown ''write failed'' \<and>
      freed (snd (do_write failing_writer three_slots [])) = [two_triangles]"
    by auto
  from do_write_frees_temporary_mesh_once [OF g2 two_triangles_ok, of "[]"] w2
  have r2: "fst (do_write first_sample_writer three_slots []) = Returned () \<and>
      freed (snd (do_write first_sample_writer three_slots [])) = [two_triangles]"
    by auto
  from do_write_frees_temporary_mesh_once [OF g3 two_triangles_ok, of "[]"] w3
  have r3: "fst (do_write mesh_writer three_slots []) = Returned () \<and>
      freed (snd (do_write mesh_writer three_slots [])) = []"
    by auto
  show ?thesis using g1 g2 g3 two_triangles_ok r1 r2 r3 by blast
qed

theorem assign_materials_whole_mesh_binding_witness:
  "raises first_sample_writer = (\<lambda>tr c. None) \<and> ob_totcol (object two_slots) \<le> 32767 \<and>
   give_current_material first_sample_writer (object two_slots) (0 + 1) = None \<and>
   give_current_material first_sample_writer (object two_slots) (1 + 1) = Some glass \<and>
   (\<exists>rest. assign_materials first_sample_writer two_slots [(0, [1]), (1, [0])] [] =
      (Returned (), [Ensure_Usd_Material glass, Bind_To_Mesh \<lparr>name_token = ''Glass''\<rparr>,
         DoubleSided_Create False] @ rest) \<and>
      mesh_bindings rest = [] \<and> double_sided_flags rest = []) \<and>
   0 < ob_totcol (object bare_slots) \<and>
   assign_materials first_sample_writer bare_slots [(0, [1]), (1, [0])] [] =
     (Returned (), [DoubleSided_Create True]) \<and>
   ob_totcol (object no_slots) = 0 \<and>
   assign_materials first_sample_writer no_slots [(0, [1]), (1, [0])] [] = (Returned (), [])"
proof -
  let ?w = first_sample_writer
  let ?fg = "[(0, [1]), (1, [0])] :: face_groups_t"
  have t2: "ob_totcol (object two_slots) \<le> 32767" and tb: "ob_totcol (object bare_slots) \<le> 32767"
    and t0: "ob_totcol (object no_slots) \<le> 32767"
    by (simp_all add: two_slots_def bare_slots_def no_slots_def)
  have s0: "give_current_material ?w (object two_slots) (0 + 1) = None"
    and s1: "give_current_material ?w (object two_slots) (1 + 1) = Some glass"
    by (simp_all add: first_sample_writer_def two_slots_def)
  have first: "0 \<le> (1::int) \<and> 1 < ob_totcol (object two_slots) \<and>
      give_current_material ?w (object two_slots) (1 + 1) = Some glass \<and>
      (\<forall>j. 0 \<le> j \<and> j < 1 \<longrightarrow> give_current_material ?w (object two_slots) (j + 1) = None)"
  proof (intro conjI allI impI)
    show "0 \<le> (1::int)" by simp
    show "1 < ob_totcol (object two_slots)" by (simp add: two_slots_def)
    show "give_current_material ?w (object two_slots) (1 + 1) = Some glass" by (rule s1)
    fix j :: int assume "0 \<le> j \<and> j < 1"
    then have "j = 0" by simp
    then show "give_current_material ?w (object two_slots) (j + 1) = None" using s0 by simp
  qed
  have flag: "((blend_flag glass AND MA_BL_CULL_BACKFACE ?w) = 0) = False"
    and name: "ensure_usd_material ?w glass = \<lparr>name_token = ''Glass''\<rparr>"
    by (simp_all add: glass_def first_sample_writer_def)
  from assign_materials_whole_mesh_binding [OF no_faults(1) t2, of ?fg "[]"] first
  have "\<exists>rest. assign_materials ?w two_slots ?fg [] =
      (Returned (), [] @ [Ensure_Usd_Material glass, Bind_To_Mesh (ensure_usd_material ?w glass),
         DoubleSided_Create ((blend_flag glass AND MA_BL_CULL_BACKFACE ?w) = 0)] @ rest) \<and>
      mesh_bindings rest = [] \<and> double_sided_flags rest = []"
    by blast
  then have p1: "\<exists>rest. assign_materials ?w two_slots ?fg [] =
      (Returned (), [Ensure_Usd_Material glass, Bind_To_Mesh \<lparr>name_token = ''Glass''\<rparr>,
         DoubleSided_Create False] @ rest) \<and>
      mesh_bindings rest = [] \<and> double_sided_flags rest = []"
    unfolding flag name by (simp only: append_Nil)
  have bare: "0 < ob_totcol (object bare_slots) \<and>
      (\<forall>j. 0 \<le> j \<and> j < ob_totcol (object bare_slots) \<longrightarrow>
         give_current_material ?w (object bare_slots) (j + 1) = None)"
    by (simp add: bare_slots_def first_sample_writer_def)
  from assign_materials_whole_mesh_binding [OF no_faults(1) tb, of ?fg "[]"] bare
  have p2: "assign_materials ?w bare_slots ?fg [] = (Returned (), [DoubleSided_Create True])"
    by (simp only: append_Nil) blast
  have z: "ob_totcol (object no_slots) = 0" by (simp add: no_slots_def)
  from assign_materials_whole_mesh_binding [OF no_faults(1) t0, of ?fg "[]"] z
  have p3: "assign_materials ?w no_slots ?fg [] = (Returned (), [])"
    by blast
  show ?thesis using no_faults(1) t2 s0 s1 p1 p2 p3 z bare by blast
qed

text \<open>
  Claim C7 says that subsets are created if and only if a material was bound to the whole
  mesh and there are at least two face groups. On an object whose first slot holds a material
  and whose other two slots are empty, with the two face groups on the empty slots, a material
  is bound, there are two groups, and no subset is created.
\<close>

theorem subsets_iff_counterexample:
  "\<not> (subset_calls (snd (assign_materials first_sample_writer three_slots
                            [(1, [0]), (2, [1])] [])) \<noteq> [] \<longleftrightarrow>
      mesh_bindings (snd (assign_materials first_sample_writer three_slots
                            [(1, [0]), (2, [1])] [])) \<noteq> [] \<and>
      2 \<le> length [(1 :: int, [0 :: int]), (2, [1])])"
  by (simp add: ex_three_slots subset_calls_def mesh_bindings_def)

theorem assign_materials_subsets_witness:
  "raises first_sample_writer = (\<lambda>tr c. None) \<and> ob_totcol (object two_slots) \<le> 32767 \<and>
   (\<exists>cs. assign_materials first_sample_writer two_slots [(0, [1]), (1, [0])] [] = (Returned (), cs) \<and>
      mesh_bindings cs \<noteq> [] \<and> 2 \<le> length [(0 :: int, [1 :: int]), (1, [0])] \<and>
      subset_calls cs =
        [MaterialBindSubset_Create ''Glass'' [0], Bind_To_Subset \<lparr>name_token = ''Glass''\<rparr> ''Glass''])"
proof -
  let ?w = first_sample_writer
  let ?fg = "[(0, [1]), (1, [0])] :: face_groups_t"
  have t2: "ob_totcol (object two_slots) \<le> 32767" by (simp add: two_slots_def)
  from assign_materials_subsets [OF no_faults(1) t2, of ?fg "[]"] obtain cs where
    cs: "assign_materials ?w two_slots ?fg [] = (Returned (), [] @ cs)"
      "subset_calls cs =
       (if mesh_bindings cs \<noteq> [] \<and> 2 \<le> length ?fg
        then concat (map (\<lambda>(k, idx).
               case give_current_material ?w (object two_slots) (short_of_int (k + 1)) of
                 None \<Rightarrow> []
               | Some m \<Rightarrow>
                   [MaterialBindSubset_Create (name_token (ensure_usd_material ?w m)) idx,
                    Bind_To_Subset (ensure_usd_material ?w m)
                      (name_token (ensure_usd_material ?w m))]) ?fg)
        else [])"
    by blast
  have bound: "mesh_bindings cs \<noteq> []"
    using cs(1) by (simp add: ex_two_slots) (auto simp: mesh_bindings_def)
  have "subset_calls cs =
      [MaterialBindSubset_Create ''Glass'' [0], Bind_To_Subset \<lparr>name_token = ''Glass''\<rparr> ''Glass'']"
    using cs(2) bound
    by (simp add: first_sample_writer_def two_slots_def glass_def short_of_int_def)
  then show ?thesis using no_faults(1) t2 cs(1) bound by simp
qed

theorem write_mesh_after_first_sample_witness:
  "frame_has_been_written later_sample_writer \<and>
   raises later_sample_writer = (\<lambda>tr c. None) \<and>
   write_mesh later_sample_writer three_slots two_triangles [] =
     (Returned (),
      [UsdGeomMesh_Define,
       Points_Set [(0, 0, 0), (1, 0, 0), (1, 1, 0), (0, 1, 0)] 1,
       FaceVertexCounts_Set [3, 3] 1,
       FaceVertexIndices_Set [0, 1, 2, 0, 2, 3] 1,
       CreaseLengths_Set [2, 2] 1,
       CreaseIndices_Set [1, 2, 0, 2] 1,
       CreaseSharpnesses_Set [10, 8421505 / 16777216] 1])"
proof -
  let ?w = later_sample_writer
  have fw: "frame_has_been_written ?w" by (simp add: later_sample_writer_def)
  have gd: "get_geometry_data (SHARPNESS_INFINITE ?w) two_triangles empty_mesh_data =
     Some \<lparr>points = [(0, 0, 0), (1, 0, 0), (1, 1, 0), (0, 1, 0)],
           face_vertex_counts = [3, 3],
           face_indices = [0, 1, 2, 0, 2, 3],
           face_groups = [(0, [1]), (1, [0])],
           crease_lengths = [2, 2],
           crease_vertex_indices = [1, 2, 0, 2],
           crease_sharpnesses = [10, 8421505 / 16777216]\<rparr>"
    using two_triangles_data by (simp add: later_sample_writer_def first_sample_writer_def)
  have tc: "get_export_time_code ?w = 1"
    by (simp add: later_sample_writer_def first_sample_writer_def)
  show ?thesis
    using write_mesh_after_first_sample [OF fw gd, of three_slots "[]"] fw no_faults(2) by (simp add: tc)
qed

text \<open>
  Claim C9 says that every call of \<^verbatim>\<open>write_mesh\<close> sets the double-sided attribute. At a later
  time sample the call returns without creating it.
\<close>

theorem double_sided_every_call_counterexample:
  "fst (write_mesh later_sample_writer three_slots two_triangles []) = Returned () \<and>
   double_sided_flags (snd (write_mesh later_sample_writer three_slots two_triangles [])) = []"
proof -
  have "get_geometry_data (SHARPNESS_INFINITE later_sample_writer) two_triangles empty_mesh_data =
     Some \<lparr>points = [(0, 0, 0), (1, 0, 0), (1, 1, 0), (0, 1, 0)],
           face_vertex_counts = [3, 3],
           face_indices = [0, 1, 2, 0, 2, 3],
           face_groups = [(0, [1]), (1, [0])],
           crease_lengths = [2, 2],
           crease_vertex_indices = [1, 2, 0, 2],
           crease_sharpnesses = [10, 8421505 / 16777216]\<rparr>"
    using two_triangles_data by (simp add: later_sample_writer_def first_sample_writer_def)
  from write_mesh_ok [OF no_faults(2) this, of three_slots "[]"]
  show ?thesis
    by (simp add: later_sample_writer_def double_sided_flags_def)
qed

theorem write_mesh_double_sided_witness:
  "raises first_sample_writer = (\<lambda>tr c. None) \<and> ob_totcol (object three_slots) \<le> 32767 \<and>
   \<not> (frame_has_been_written first_sample_writer \<or> ob_totcol (object three_slots) = 0) \<and>
   (\<exists>cs. write_mesh first_sample_writer three_slots two_triangles [] = (Returned (), cs) \<and>
      length (double_sided_flags cs) = 1) \<and>
   ob_totcol (object no_slots) = 0 \<and>
   (\<exists>cs. write_mesh first_sample_writer no_slots two_triangles [] = (Returned (), cs) \<and>
      length (double_sided_flags cs) = 0)"
proof -
  let ?w = first_sample_writer
  have gd: "get_geometry_data (SHARPNESS_INFINITE ?w) two_triangles empty_mesh_data =
     Some \<lparr>points = [(0, 0, 0), (1, 0, 0), (1, 1, 0), (0, 1, 0)],
           face_vertex_counts = [3, 3],
           face_indices = [0, 1, 2, 0, 2, 3],
           face_groups = [(0, [1]), (1, [0])],
           crease_lengths = [2, 2],
           crease_vertex_indices = [1, 2, 0, 2],
           crease_sharpnesses = [10, 8421505 / 16777216]\<rparr>"
    using two_triangles_data by (simp add: first_sample_writer_def)
  have t3: "ob_totcol (object three_slots) \<le> 32767" and t0: "ob_totcol (object no_slots) \<le> 32767"
    by (simp_all add: three_slots_def no_slots_def)
  have c3: "\<not> (frame_has_been_written ?w \<or> ob_totcol (object three_slots) = 0)"
    and c0: "ob_totcol (object no_slots) = 0"
    by (simp_all add: first_sample_writer_def three_slots_def no_slots_def)
  from write_mesh_double_sided [OF no_faults(1) t3 gd, of "[]"] c3
  have p1: "\<exists>cs. write_mesh ?w three_slots two_triangles [] = (Returned (), cs) \<and>
      length (double_sided_flags cs) = 1"
    by simp
  from write_mesh_double_sided [OF no_faults(1) t0 gd, of "[]"] c0
  have p2: "\<exists>cs. write_mesh ?w no_slots two_triangles [] = (Returned (), cs) \<and>
      length (double_sided_flags cs) = 0"
    by simp
  show ?thesis using no_faults(1) t3 c3 c0 p1 p2 by blast
qed

end
